theory Spec2Isabelle
  imports Complex_Main "HOL-Library.Log_Nat" "HOL-Library.Char_ord" "HOL-Library.List_Lexorder"
    "HOL-Library.Multiset"
begin

section \<open>Python values used by stt.py\<close>

text \<open>
  A Python \<open>str\<close> is modelled as a \<open>string\<close> holding its UTF-8 bytes. Every string
  operation of the program (concatenation, \<open>join\<close>, searching for the ASCII characters
  \<open>/\<close>, \<open>.\<close>, \<open>*\<close>, \<open>?\<close>, \<open>[\<close>, escaping of control characters, comparison by code
  point) acts the same on code points and on their UTF-8 bytes.
\<close>

definition nl :: string where
  "nl = [CHR 0x0A]"

text \<open>\<open>sep.join(xs)\<close>\<close>

fun str_join :: "string \<Rightarrow> string list \<Rightarrow> string" where
  "str_join sep [] = []"
| "str_join sep [x] = x"
| "str_join sep (x # y # ys) = x @ sep @ str_join sep (y # ys)"

subsection \<open>Integers as decimal text\<close>

definition digit_char :: "nat \<Rightarrow> char" where
  "digit_char d = char_of (48 + d)"

text \<open>The decimal digits of a natural number, most significant first; \<open>0\<close> is \<open>''0''\<close>.\<close>

fun str_nat :: "nat \<Rightarrow> string" where
  "str_nat n = (if n < 10 then [digit_char n] else str_nat (n div 10) @ [digit_char (n mod 10)])"

declare str_nat.simps [simp del]

text \<open>\<open>str(i)\<close> for a Python \<open>int\<close>.\<close>

definition str_int :: "int \<Rightarrow> string" where
  "str_int i = (if i < 0 then CHR ''-'' # str_nat (nat (- i)) else str_nat (nat i))"

text \<open>
  \<open>f"{i:0wd}"\<close>: the sign first, then zeros up to a total width of \<open>w\<close>, then the digits;
  a number that needs more than \<open>w\<close> characters is not cut.
\<close>

definition format_0d :: "nat \<Rightarrow> int \<Rightarrow> string" where
  "format_0d w i =
     (let ds = str_nat (nat \<bar>i\<bar>);
          sign = (if i < 0 then ''-'' else '''')
      in sign @ replicate (w - length sign - length ds) CHR ''0'' @ ds)"

subsection \<open>Floats\<close>

text \<open>
  A Python \<open>float\<close> is an IEEE-754 binary64 value. A finite one is modelled by the
  rational number it denotes, \<open>Num 0\<close> being the positive zero; the negative zero, the
  two infinities and the not-a-number are constructors of their own. An arithmetic
  operation on finite floats is the exact operation on the rationals followed by
  \<open>round_double\<close>, rounding to the nearest binary64 value, ties to the even
  significand.
\<close>

datatype pyfloat = Num rat | NegZero | PosInf | NegInf | NaN

definition pow2 :: "int \<Rightarrow> rat" where
  "pow2 k = (if 0 \<le> k then 2 ^ nat k else 1 / 2 ^ nat (- k))"

text \<open>\<open>ilog2 q\<close> is the \<open>e\<close> with \<open>2^e \<le> q < 2^(e+1)\<close>, for positive \<open>q\<close>.\<close>

definition ilog2 :: "rat \<Rightarrow> int" where
  "ilog2 q =
     (let (a, b) = quotient_of q;
          d = bitlen a - bitlen b
      in if pow2 d \<le> q then d else d - 1)"

definition round_half_even :: "rat \<Rightarrow> int" where
  "round_half_even m =
     (let f = \<lfloor>m\<rfloor>; d = m - of_int f
      in if d < 1 / 2 then f
         else if 1 / 2 < d then f + 1
         else if even f then f else f + 1)"

text \<open>
  Rounding to binary64: 53 significant bits, the least exponent of a unit in the last
  place being \<open>-1074\<close> (subnormal numbers). No operation of the program on finite floats
  produces a value beyond the largest finite float, so rounding has no overflow case.
\<close>

definition round_double :: "rat \<Rightarrow> rat" where
  "round_double q =
     (if q = 0 then 0
      else let p = max (ilog2 \<bar>q\<bar> - 52) (- 1074);
               r = round_half_even (\<bar>q\<bar> / pow2 p)
           in sgn q * of_int r * pow2 p)"

definition fadd :: "rat \<Rightarrow> rat \<Rightarrow> rat" where
  "fadd x y = round_double (x + y)"

definition fsub :: "rat \<Rightarrow> rat \<Rightarrow> rat" where
  "fsub x y = round_double (x - y)"

definition fmul :: "rat \<Rightarrow> rat \<Rightarrow> rat" where
  "fmul x y = round_double (x * y)"

definition fdiv :: "rat \<Rightarrow> rat \<Rightarrow> rat" where
  "fdiv x y = round_double (x / y)"

text \<open>C's \<open>fmod\<close>: the remainder of the division truncated towards zero; it is exact.\<close>

definition trunc :: "rat \<Rightarrow> int" where
  "trunc x = (if 0 \<le> x then \<lfloor>x\<rfloor> else - \<lfloor>- x\<rfloor>)"

definition fmod :: "rat \<Rightarrow> rat \<Rightarrow> rat" where
  "fmod vx wx = vx - wx * of_int (trunc (vx / wx))"

text \<open>
  \<open>vx % wx\<close> on finite floats, \<open>wx\<close> not zero, as CPython's \<open>float_rem\<close> computes it:
  \<^verbatim>\<open>
    mod = fmod(vx, wx);
    if (mod) { if ((wx < 0) != (mod < 0)) mod += wx; }
    else mod = copysign(0.0, wx);
  \<close>
\<close>

definition float_rem :: "rat \<Rightarrow> rat \<Rightarrow> rat" where
  "float_rem vx wx =
     (let m = fmod vx wx
      in if m \<noteq> 0 then (if (wx < 0) \<noteq> (m < 0) then fadd m wx else m) else 0)"

text \<open>
  \<open>vx // wx\<close> on finite floats, \<open>wx\<close> not zero, as CPython's \<open>_float_div_mod\<close> computes it:
  \<^verbatim>\<open>
    mod = fmod(vx, wx);
    div = (vx - mod) / wx;
    if (mod) { if ((wx < 0) != (mod < 0)) { mod += wx; div -= 1.0; } }
    if (div) { floordiv = floor(div); if (div - floordiv > 0.5) floordiv += 1.0; }
    else floordiv = copysign(0.0, vx / wx);
  \<close>
\<close>

definition float_floor_div :: "rat \<Rightarrow> rat \<Rightarrow> rat" where
  "float_floor_div vx wx =
     (let m = fmod vx wx;
          d = fdiv (fsub vx m) wx;
          d' = (if m \<noteq> 0 \<and> (wx < 0) \<noteq> (m < 0) then fsub d 1 else d)
      in if d' \<noteq> 0
         then (let fl = of_int \<lfloor>d'\<rfloor>
               in if 1 / 2 < fsub d' fl then fadd fl 1 else fl)
         else 0)"

datatype py_error = ValueError | OSError

text \<open>
  The four numeric fields of a timestamp. On a float that is not finite the first
  line of \<open>format_timestamp\<close> already raises: \<open>x // 3600\<close> is \<open>nan\<close> for \<open>nan\<close> and for
  both infinities, and \<open>int(nan)\<close> raises \<open>ValueError\<close>. On the negative zero every
  quotient and remainder is a zero, of either sign, and \<open>int\<close> of it is \<open>0\<close>, as on the
  positive zero.
\<close>

record hmsm =
  hours :: int
  minutes :: int
  secs :: int
  millis :: int

definition timestamp_fields :: "rat \<Rightarrow> hmsm" where
  "timestamp_fields seconds =
     \<lparr> hours = trunc (float_floor_div seconds 3600),
       minutes = trunc (float_floor_div (float_rem seconds 3600) 60),
       secs = trunc (float_rem seconds 60),
       millis = trunc (fmul (float_rem seconds 1) 1000) \<rparr>"

definition render_timestamp :: "hmsm \<Rightarrow> string \<Rightarrow> string" where
  "render_timestamp t fmt =
     (if fmt = ''srt''
      then format_0d 2 (hours t) @ '':'' @ format_0d 2 (minutes t) @ '':'' @
           format_0d 2 (secs t) @ '','' @ format_0d 3 (millis t)
      else format_0d 2 (hours t) @ '':'' @ format_0d 2 (minutes t) @ '':'' @
           format_0d 2 (secs t) @ ''.'' @ format_0d 3 (millis t))"

fun format_timestamp :: "pyfloat \<Rightarrow> string \<Rightarrow> py_error + string" where
  "format_timestamp (Num seconds) fmt = Inr (render_timestamp (timestamp_fields seconds) fmt)"
| "format_timestamp NegZero fmt = Inr (render_timestamp (timestamp_fields 0) fmt)"
| "format_timestamp PosInf fmt = Inl ValueError"
| "format_timestamp NegInf fmt = Inl ValueError"
| "format_timestamp NaN fmt = Inl ValueError"

section \<open>Transcripts\<close>

text \<open>
  What the transcription collaborator returns: the full text and the sentences in
  order, each with its text and its start and end in seconds.
\<close>

record sentence =
  s_text :: string
  s_start :: pyfloat
  s_end :: pyfloat

record transcript =
  full_text :: string
  sentences :: "sentence list"

section \<open>JSON text\<close>

text \<open>
  The Python values of JSON: \<open>None\<close>, a \<open>bool\<close>, an \<open>int\<close>, a \<open>str\<close>, a \<open>float\<close>, a
  \<open>list\<close>, and a \<open>dict\<close> with string keys, kept as the list of its items in insertion
  order. \<open>format_output\<close> hands \<open>json.dumps\<close> strings, floats, lists and dicts.
\<close>

datatype json =
    JNull
  | JBool bool
  | JInt int
  | JString string
  | JFloat pyfloat
  | JArray "json list"
  | JObject "(string \<times> json) list"

definition hex_digit :: "nat \<Rightarrow> char" where
  "hex_digit d = (if d < 10 then char_of (48 + d) else char_of (87 + d))"

text \<open>
  The escapes of \<open>json.encoder.encode_basestring\<close>, the string encoder chosen by
  \<open>ensure_ascii=False\<close>: the backslash, the double quote and the characters below
  \<open>0x20\<close> are escaped, every other character is copied.
\<close>

definition escape_char :: "char \<Rightarrow> string" where
  "escape_char c =
     (if c = CHR 0x5C then [CHR 0x5C, CHR 0x5C]
      else if c = CHR 0x22 then [CHR 0x5C, CHR 0x22]
      else if c = CHR 0x08 then [CHR 0x5C, CHR ''b'']
      else if c = CHR 0x0C then [CHR 0x5C, CHR ''f'']
      else if c = CHR 0x0A then [CHR 0x5C, CHR ''n'']
      else if c = CHR 0x0D then [CHR 0x5C, CHR ''r'']
      else if c = CHR 0x09 then [CHR 0x5C, CHR ''t'']
      else if of_char c < (0x20 :: nat)
      then [CHR 0x5C, CHR ''u'', CHR ''0'', CHR ''0'',
            hex_digit (of_char c div 16), hex_digit (of_char c mod 16)]
      else [c])"

definition encode_basestring :: "string \<Rightarrow> string" where
  "encode_basestring s = [CHR 0x22] @ concat (map escape_char s) @ [CHR 0x22]"

text \<open>
  \<open>floatstr\<close> of \<open>json.encoder\<close>. The text of a finite float is \<open>float.__repr__\<close>, the
  shortest decimal text that reads back as the same float; that algorithm belongs to
  the Python runtime and is the parameter \<open>float_repr\<close>.
\<close>

fun floatstr :: "(rat \<Rightarrow> string) \<Rightarrow> pyfloat \<Rightarrow> string" where
  "floatstr float_repr (Num q) = float_repr q"
| "floatstr float_repr NegZero = ''-0.0''"
| "floatstr float_repr PosInf = ''Infinity''"
| "floatstr float_repr NegInf = ''-Infinity''"
| "floatstr float_repr NaN = ''NaN''"

definition newline_indent :: "nat \<Rightarrow> string" where
  "newline_indent level = nl @ concat (replicate level ''  '')"

text \<open>
  \<open>json.dumps(v, indent=2, ensure_ascii=False)\<close>, as \<open>_make_iterencode\<close> produces it with
  the separators \<open>,\<close> and \<open>: \<close>; \<open>level\<close> is the current indentation level.
\<close>

fun iterencode :: "(rat \<Rightarrow> string) \<Rightarrow> nat \<Rightarrow> json \<Rightarrow> string"
  and iterencode_list :: "(rat \<Rightarrow> string) \<Rightarrow> nat \<Rightarrow> json list \<Rightarrow> string"
  and iterencode_dict :: "(rat \<Rightarrow> string) \<Rightarrow> nat \<Rightarrow> (string \<times> json) list \<Rightarrow> string"
where
  "iterencode fr level JNull = ''null''"
| "iterencode fr level (JBool b) = (if b then ''true'' else ''false'')"
| "iterencode fr level (JInt i) = str_int i"
| "iterencode fr level (JString s) = encode_basestring s"
| "iterencode fr level (JFloat x) = floatstr fr x"
| "iterencode fr level (JArray []) = ''[]''"
| "iterencode fr level (JArray (v # vs)) =
     ''['' @ newline_indent (level + 1) @ iterencode_list fr (level + 1) (v # vs) @
     newline_indent level @ '']''"
| "iterencode fr level (JObject []) = ''{}''"
| "iterencode fr level (JObject (kv # kvs)) =
     ''{'' @ newline_indent (level + 1) @ iterencode_dict fr (level + 1) (kv # kvs) @
     newline_indent level @ ''}''"
| "iterencode_list fr level [] = []"
| "iterencode_list fr level [v] = iterencode fr level v"
| "iterencode_list fr level (v # w # ws) =
     iterencode fr level v @ '','' @ newline_indent level @ iterencode_list fr level (w # ws)"
| "iterencode_dict fr level [] = []"
| "iterencode_dict fr level [(k, v)] = encode_basestring k @ '': '' @ iterencode fr level v"
| "iterencode_dict fr level ((k, v) # kv # kvs) =
     encode_basestring k @ '': '' @ iterencode fr level v @ '','' @ newline_indent level @
     iterencode_dict fr level (kv # kvs)"

definition json_dumps :: "(rat \<Rightarrow> string) \<Rightarrow> json \<Rightarrow> string" where
  "json_dumps fr v = iterencode fr 0 v"

section \<open>Formatting a transcript\<close>

definition sentence_json :: "sentence \<Rightarrow> json" where
  "sentence_json s =
     JObject [(''text'', JString (s_text s)), (''start'', JFloat (s_start s)),
              (''end'', JFloat (s_end s))]"

definition transcript_json :: "transcript \<Rightarrow> json" where
  "transcript_json result =
     JObject [(''text'', JString (full_text result)),
              (''sentences'', JArray (map sentence_json (sentences result)))]"

text \<open>
  The loop of the \<open>srt\<close>/\<open>vtt\<close> branch, \<open>for i, sentence in enumerate(result.sentences, 1)\<close>:
  the lines appended for the sentences from counter \<open>i\<close> on. A timestamp that raises
  ends the loop with that error.
\<close>

fun subtitle_lines :: "string \<Rightarrow> nat \<Rightarrow> sentence list \<Rightarrow> py_error + string list" where
  "subtitle_lines fmt i [] = Inr []"
| "subtitle_lines fmt i (s # ss) =
     (case format_timestamp (s_start s) fmt of
        Inl e \<Rightarrow> Inl e
      | Inr start \<Rightarrow>
          (case format_timestamp (s_end s) fmt of
             Inl e \<Rightarrow> Inl e
           | Inr end' \<Rightarrow>
               (case subtitle_lines fmt (i + 1) ss of
                  Inl e \<Rightarrow> Inl e
                | Inr rest \<Rightarrow> Inr ([str_nat i, start @ '' --> '' @ end', s_text s, ''''] @ rest))))"

definition format_output :: "(rat \<Rightarrow> string) \<Rightarrow> transcript \<Rightarrow> string \<Rightarrow> py_error + string" where
  "format_output float_repr result fmt =
     (if fmt = ''txt'' then Inr (full_text result)
      else if fmt = ''json'' then Inr (json_dumps float_repr (transcript_json result))
      else if fmt = ''srt'' \<or> fmt = ''vtt''
      then (case subtitle_lines fmt 1 (sentences result) of
              Inl e \<Rightarrow> Inl e
            | Inr ls \<Rightarrow> Inr (str_join nl ((if fmt = ''vtt'' then [''WEBVTT'' @ nl] else []) @ ls)))
      else Inr (full_text result))"

section \<open>Paths\<close>

text \<open>
  A \<open>pathlib.Path\<close> on a POSIX system, as pathlib keeps it after parsing: the anchor
  (empty for a relative path, \<open>/\<close>, or \<open>//\<close> for exactly two leading slashes) and the
  components, the empty ones and the \<open>.\<close> ones dropped.
\<close>

datatype path = Path (anchor: string) (parts: "string list")

text \<open>\<open>s.split('/')\<close>\<close>

fun split_slash :: "string \<Rightarrow> string list" where
  "split_slash [] = [[]]"
| "split_slash (c # cs) =
     (if c = CHR ''/'' then [] # split_slash cs
      else (case split_slash cs of [] \<Rightarrow> [[c]] | w # ws \<Rightarrow> (c # w) # ws))"

definition proper_part :: "string \<Rightarrow> bool" where
  "proper_part c \<longleftrightarrow> c \<noteq> [] \<and> c \<noteq> ''.''"

text \<open>\<open>Path(s)\<close>\<close>

definition path_of_str :: "string \<Rightarrow> path" where
  "path_of_str s =
     (let n = length (takeWhile (\<lambda>c. c = CHR ''/'') s)
      in Path (if n = 0 then [] else if n = 2 then ''//'' else ''/'')
              (filter proper_part (split_slash s)))"

text \<open>\<open>str(p)\<close>\<close>

definition str_path :: "path \<Rightarrow> string" where
  "str_path p =
     (if anchor p = [] \<and> parts p = [] then ''.'' else anchor p @ str_join ''/'' (parts p))"

text \<open>\<open>p.name\<close>: the last component, empty when there is none.\<close>

definition name :: "path \<Rightarrow> string" where
  "name p = (if parts p = [] then [] else last (parts p))"

text \<open>
  \<open>nm.rfind('.')\<close>: the index of the last dot, \<open>None\<close> for Python's \<open>-1\<close>.
\<close>

definition rfind_dot :: "string \<Rightarrow> nat option" where
  "rfind_dot nm =
     (let k = length (takeWhile (\<lambda>c. c \<noteq> CHR ''.'') (rev nm))
      in if k = length nm then None else Some (length nm - 1 - k))"

text \<open>
  \<open>p.suffix\<close> and \<open>p.stem\<close>: with \<open>i = name.rfind('.')\<close>, the name is cut at \<open>i\<close> when
  \<open>0 < i < len(name) - 1\<close>; otherwise the suffix is empty and the stem is the name.
\<close>

definition suffix :: "path \<Rightarrow> string" where
  "suffix p =
     (case rfind_dot (name p) of
        None \<Rightarrow> []
      | Some i \<Rightarrow> if 0 < i \<and> i + 1 < length (name p) then drop i (name p) else [])"

definition stem :: "path \<Rightarrow> string" where
  "stem p =
     (case rfind_dot (name p) of
        None \<Rightarrow> name p
      | Some i \<Rightarrow> if 0 < i \<and> i + 1 < length (name p) then take i (name p) else name p)"

text \<open>\<open>p.parent\<close>: the path without its last component; a path without components is its own parent.\<close>

definition parent :: "path \<Rightarrow> path" where
  "parent p = (if parts p = [] then p else Path (anchor p) (butlast (parts p)))"

text \<open>\<open>p / s\<close> for a string \<open>s\<close>: an absolute \<open>s\<close> replaces \<open>p\<close>, a relative one is appended.\<close>

definition joinpath :: "path \<Rightarrow> string \<Rightarrow> path" where
  "joinpath p s =
     (let q = path_of_str s
      in if anchor q \<noteq> [] then q else Path (anchor p) (parts p @ parts q))"

text \<open>
  \<open>p.resolve()\<close> from the current directory \<open>cwd\<close> on a file system without symbolic
  links: the path is made absolute and every \<open>..\<close> component removes the component
  before it (none at the root).
\<close>

fun collapse :: "string list \<Rightarrow> string list \<Rightarrow> string list" where
  "collapse acc [] = acc"
| "collapse acc (c # cs) = (if c = ''..'' then collapse (butlast acc) cs else collapse (acc @ [c]) cs)"

definition resolve :: "path \<Rightarrow> path \<Rightarrow> path" where
  "resolve cwd p = Path ''/'' (collapse [] ((if anchor p = [] then parts cwd else []) @ parts p))"


section \<open>The file system\<close>

text \<open>
  The file system is a finite table from paths to what they name: a file with its
  content, or a directory that is writable or not. Each path value names its own
  entry: two spellings of one file (through a symbolic link, or a relative and an
  absolute path) are not modelled. The first entry for a path is the one in force.
\<close>

datatype node = File string | Dir bool

type_synonym filesystem = "(path \<times> node) list"

text \<open>\<open>p.exists()\<close> and \<open>p.is_dir()\<close>\<close>

definition path_exists :: "filesystem \<Rightarrow> path \<Rightarrow> bool" where
  "path_exists fs p \<longleftrightarrow> map_of fs p \<noteq> None"

definition is_dir :: "filesystem \<Rightarrow> path \<Rightarrow> bool" where
  "is_dir fs p \<longleftrightarrow> (case map_of fs p of Some (Dir w) \<Rightarrow> True | _ \<Rightarrow> False)"

text \<open>
  \<open>p.write_text(content)\<close> opens \<open>p\<close> for writing and replaces its content. The open
  fails with an \<open>OSError\<close> when \<open>p\<close> is a directory, when its parent is not a directory, or
  when \<open>p\<close> does not exist and its parent is not writable.
\<close>

definition write_text :: "filesystem \<Rightarrow> path \<Rightarrow> string \<Rightarrow> py_error + filesystem" where
  "write_text fs p content =
     (case map_of fs p of
        Some (Dir w) \<Rightarrow> Inl OSError
      | Some (File old) \<Rightarrow> Inr ((p, File content) # fs)
      | None \<Rightarrow>
          (case map_of fs (parent p) of
             Some (Dir True) \<Rightarrow> Inr ((p, File content) # fs)
           | _ \<Rightarrow> Inl OSError))"

section \<open>Choosing the output path\<close>

definition EXTENSION_MAP :: "(string \<times> string) list" where
  "EXTENSION_MAP = [(''txt'', ''.txt''), (''srt'', ''.srt''), (''vtt'', ''.vtt''), (''json'', ''.json'')]"

text \<open>\<open>parent / f"{stem}-{counter}{suffix}"\<close>\<close>

definition numbered :: "path \<Rightarrow> string \<Rightarrow> string \<Rightarrow> nat \<Rightarrow> path" where
  "numbered par st suf counter = joinpath par (st @ ''-'' @ str_nat counter @ suf)"

subsection \<open>Decimal text determines the number\<close>

definition digit_val :: "char \<Rightarrow> nat" where
  "digit_val c = of_char c - 48"

definition nat_of_digits :: "string \<Rightarrow> nat" where
  "nat_of_digits ds = foldl (\<lambda>a c. 10 * a + digit_val c) 0 ds"

definition is_digit :: "char \<Rightarrow> bool" where
  "is_digit c \<longleftrightarrow> (48::nat) \<le> of_char c \<and> of_char c \<le> (57::nat)"

text \<open>
  \<open>get_unique_output_path\<close>, from \<open>counter = 1\<close> on: the loop \<open>while True\<close> that returns
  the first numbered path that does not exist. The file system is finite and the
  numbered paths are pairwise different, so the loop ends.
\<close>

function unique_loop :: "filesystem \<Rightarrow> path \<Rightarrow> string \<Rightarrow> string \<Rightarrow> nat \<Rightarrow> path" where
  "unique_loop fs par st suf counter =
     (let new_path = joinpath par (st @ ''-'' @ str_nat counter @ suf)
      in if \<not> path_exists fs new_path then new_path
         else unique_loop fs par st suf (counter + 1))"
  by pat_completeness auto

definition get_unique_output_path :: "filesystem \<Rightarrow> path \<Rightarrow> path" where
  "get_unique_output_path fs base_path =
     (if \<not> path_exists fs base_path then base_path
      else unique_loop fs (parent base_path) (stem base_path) (suffix base_path) 1)"

text \<open>\<open>EXTENSION_MAP.get(fmt, ".txt")\<close>\<close>

definition extension_of :: "string \<Rightarrow> string" where
  "extension_of fmt = (case map_of EXTENSION_MAP fmt of Some e \<Rightarrow> e | None \<Rightarrow> ''.txt'')"

text \<open>
  \<open>get_output_path\<close>; \<open>if output:\<close> holds for a string that is not empty.
\<close>

definition get_output_path :: "filesystem \<Rightarrow> path \<Rightarrow> string option \<Rightarrow> string \<Rightarrow> path" where
  "get_output_path fs input_path output fmt =
     (let ext = extension_of fmt;
          output_path =
            (case output of
               Some out \<Rightarrow>
                 if out \<noteq> []
                 then (if is_dir fs (path_of_str out)
                       then joinpath (path_of_str out) (stem input_path @ ext)
                       else path_of_str out)
                 else joinpath (parent input_path) (stem input_path @ ext)
             | None \<Rightarrow> joinpath (parent input_path) (stem input_path @ ext))
      in get_unique_output_path fs output_path)"


section \<open>Resolving the inputs\<close>

text \<open>
  What the program asks of its surroundings: \<open>glob.glob\<close>, which answers a pattern with
  the matching path strings in no particular order; the current directory; whether the
  model is in the local cache; \<open>from_pretrained\<close>, which returns the model or raises; and
  \<open>float.__repr__\<close>. The model is its \<open>transcribe\<close> method, which answers the string of a
  path with a transcript or raises an \<open>Exception\<close> with a message.
\<close>

datatype outcome = Returned transcript | Raised string

record env =
  glob :: "string \<Rightarrow> string list"
  cwd :: path
  model_cached :: bool
  from_pretrained :: "py_error + (string \<Rightarrow> outcome)"
  float_repr :: "rat \<Rightarrow> string"

text \<open>\<open>any(c in pattern for c in "*?[")\<close>\<close>

definition is_glob :: "string \<Rightarrow> bool" where
  "is_glob pattern = list_ex (\<lambda>c. c \<in> set pattern) ''*?[''"

fun expand_paths :: "env \<Rightarrow> string list \<Rightarrow> path list" where
  "expand_paths e [] = []"
| "expand_paths e (pattern # patterns) =
     (if is_glob pattern
      then map (\<lambda>p. resolve (cwd e) (path_of_str p)) (sort (glob e pattern))
      else [resolve (cwd e) (path_of_str pattern)]) @ expand_paths e patterns"

section \<open>The batch run\<close>

text \<open>
  The state a run changes: the file system, the lines printed on the standard output
  and on the standard error, and the path strings the model was called with, in order.
\<close>

record world =
  files :: filesystem
  stdout :: "string list"
  stderr :: "string list"
  transcribed :: "string list"

definition MODEL_ID :: string where
  "MODEL_ID = ''mlx-community/parakeet-tdt-0.6b-v3''"

text \<open>
  \<open>transcribe\<close>: the progress line and the call of the model are inside the \<open>try\<close>, so an
  exception of the model gives \<open>False\<close>; formatting and writing are outside it, so their
  exceptions leave the function (\<open>Inl\<close>).
\<close>

definition transcribe ::
  "env \<Rightarrow> (string \<Rightarrow> outcome) \<Rightarrow> world \<Rightarrow> path \<Rightarrow> path \<Rightarrow> string \<Rightarrow> bool \<Rightarrow> (py_error + bool) \<times> world" where
  "transcribe e model w input_path output_path fmt quiet =
     (let w1 = (if \<not> quiet
                then w\<lparr>stderr := stderr w @ [''Processing '' @ name input_path @ ''...'']\<rparr>
                else w);
          w2 = w1\<lparr>transcribed := transcribed w1 @ [str_path input_path]\<rparr>
      in case model (str_path input_path) of
           Raised msg \<Rightarrow>
             (Inr False,
              if \<not> quiet
              then w2\<lparr>stderr := stderr w2 @
                     [''Error: Transcription failed for '' @ name input_path @ '': '' @ msg]\<rparr>
              else w2)
         | Returned result \<Rightarrow>
             (case format_output (float_repr e) result fmt of
                Inl err \<Rightarrow> (Inl err, w2)
              | Inr content \<Rightarrow>
                  (case write_text (files w2) output_path content of
                     Inl err \<Rightarrow> (Inl err, w2)
                   | Inr fs' \<Rightarrow>
                       (Inr True, w2\<lparr>files := fs', stdout := stdout w2 @ [str_path output_path]\<rparr>))))"

text \<open>
  The loop of \<open>main\<close> over the input paths, from the flag \<open>success\<close> on. An exception
  that leaves \<open>transcribe\<close> leaves the loop.
\<close>

fun process_inputs ::
  "env \<Rightarrow> (string \<Rightarrow> outcome) \<Rightarrow> string option \<Rightarrow> string \<Rightarrow> bool \<Rightarrow> bool \<Rightarrow> world \<Rightarrow> path list \<Rightarrow>
   (py_error + bool) \<times> world" where
  "process_inputs e model output fmt quiet success w [] = (Inr success, w)"
| "process_inputs e model output fmt quiet success w (input_path # rest) =
     (let output_path = get_output_path (files w) input_path output fmt
      in case transcribe e model w input_path output_path fmt quiet of
           (Inl err, w') \<Rightarrow> (Inl err, w')
         | (Inr ok, w') \<Rightarrow>
             process_inputs e model output fmt quiet (if \<not> ok then False else success) w' rest)"

text \<open>How a run ends: \<open>sys.exit\<close> with a status, or an exception nobody caught.\<close>

datatype ending = Exit nat | Uncaught py_error

text \<open>
  The notice printed before the model is loaded: \<open>if not args.quiet and not is_model_cached()\<close>.
\<close>

definition download_notice :: "env \<Rightarrow> world \<Rightarrow> bool \<Rightarrow> world" where
  "download_notice e w quiet =
     (if \<not> quiet \<and> \<not> model_cached e
      then w\<lparr>stderr := stderr w @ [''Model not found locally. Downloading '' @ MODEL_ID @ ''...'']\<rparr>
      else w)"

text \<open>
  \<open>main\<close> after the arguments are parsed: \<open>inputs\<close> are the positional arguments,
  \<open>output\<close> is \<open>--output\<close> (\<open>None\<close> when absent), \<open>fmt\<close> is \<open>--format\<close>, \<open>quiet\<close> is \<open>--quiet\<close>.
\<close>

definition main ::
  "env \<Rightarrow> world \<Rightarrow> string list \<Rightarrow> string option \<Rightarrow> string \<Rightarrow> bool \<Rightarrow> ending \<times> world" where
  "main e w inputs output fmt quiet =
     (let input_paths = expand_paths e inputs
      in if input_paths = []
         then (Exit 1,
               if \<not> quiet then w\<lparr>stderr := stderr w @ [''Error: No matching files found'']\<rparr> else w)
         else
           let missing = filter (\<lambda>p. \<not> path_exists (files w) p) input_paths
           in if missing \<noteq> []
              then (Exit 1,
                    if \<not> quiet
                    then w\<lparr>stderr := stderr w @
                           map (\<lambda>p. ''Error: Input file not found: '' @ str_path p) missing\<rparr>
                    else w)
              else if 1 < length input_paths \<and>
                      (case output of
                         Some out \<Rightarrow> out \<noteq> [] \<and> \<not> is_dir (files w) (path_of_str out)
                       | None \<Rightarrow> False)
              then (Exit 1,
                    if \<not> quiet
                    then w\<lparr>stderr := stderr w @
                           [''Error: Output must be a directory when processing multiple files'']\<rparr>
                    else w)
              else
                let w1 = download_notice e w quiet
                in case from_pretrained e of
                     Inl err \<Rightarrow> (Uncaught err, w1)
                   | Inr model \<Rightarrow>
                       (case process_inputs e model output fmt quiet True w1 input_paths of
                          (Inl err, w') \<Rightarrow> (Uncaught err, w')
                        | (Inr success, w') \<Rightarrow> (Exit (if success then 0 else 1), w')))"

section \<open>Describing a run\<close>

text \<open>
  Words for the statements about a run. The inputs pass validation when \<open>main\<close> reaches
  the loading of the model: some input was resolved, every one exists, and several
  inputs come with no output argument or with a directory. An input succeeded when the
  model returned a transcript for it. An entry of the file system is written for an
  input when it is a file holding the formatted transcript of that input. The
  diagnostics of an input are its lines on the standard error when not quiet. A run
  crashes at an input when the model returned a transcript for it and formatting that
  transcript, or writing the formatted text to the output path, raises.
\<close>

definition passes_validation :: "env \<Rightarrow> world \<Rightarrow> string list \<Rightarrow> string option \<Rightarrow> bool" where
  "passes_validation e w inputs output \<longleftrightarrow>
     expand_paths e inputs \<noteq> [] \<and>
     (\<forall>p \<in> set (expand_paths e inputs). path_exists (files w) p) \<and>
     \<not> (1 < length (expand_paths e inputs) \<and>
        (case output of
           Some out \<Rightarrow> out \<noteq> [] \<and> \<not> is_dir (files w) (path_of_str out)
         | None \<Rightarrow> False))"

definition succeeded :: "(string \<Rightarrow> outcome) \<Rightarrow> path \<Rightarrow> bool" where
  "succeeded model p = (case model (str_path p) of Returned r \<Rightarrow> True | Raised msg \<Rightarrow> False)"

definition written_for :: "env \<Rightarrow> (string \<Rightarrow> outcome) \<Rightarrow> string \<Rightarrow> path \<Rightarrow> path \<times> node \<Rightarrow> bool" where
  "written_for e model fmt p entry \<longleftrightarrow>
     (\<exists>r c. model (str_path p) = Returned r \<and> format_output (float_repr e) r fmt = Inr c \<and>
            snd entry = File c)"

definition diagnostics :: "(string \<Rightarrow> outcome) \<Rightarrow> path \<Rightarrow> string list" where
  "diagnostics model p =
     (''Processing '' @ name p @ ''...'') #
     (case model (str_path p) of
        Returned r \<Rightarrow> []
      | Raised msg \<Rightarrow> [''Error: Transcription failed for '' @ name p @ '': '' @ msg])"

definition crashes_at ::
  "env \<Rightarrow> (string \<Rightarrow> outcome) \<Rightarrow> string option \<Rightarrow> string \<Rightarrow> filesystem \<Rightarrow> path \<Rightarrow> py_error \<Rightarrow> bool" where
  "crashes_at e model output fmt fs p err \<longleftrightarrow>
     (\<exists>r. model (str_path p) = Returned r \<and>
        (format_output (float_repr e) r fmt = Inl err \<or>
         (\<exists>c. format_output (float_repr e) r fmt = Inr c \<and>
              write_text fs (get_output_path fs p output fmt) c = Inl err)))"

section \<open>Float arithmetic of the timestamp\<close>

text \<open>
  The spec's \<open>seconds mod w\<close> on exact numbers: what is left of \<open>s\<close> after the whole
  multiples of \<open>w\<close>.
\<close>

definition rat_mod :: "rat \<Rightarrow> rat \<Rightarrow> rat" where
  "rat_mod s w = s - w * of_int \<lfloor>s / w\<rfloor>"

section \<open>Reading JSON text\<close>

text \<open>
  \<open>json.loads\<close>, the decoder of the standard library with its default settings: the
  JSON grammar with the constants \<open>NaN\<close>, \<open>Infinity\<close> and \<open>-Infinity\<close>, strings in strict
  mode (no raw control character), white space being the space, the tab, the line feed
  and the carriage return. \<open>None\<close> stands for the \<open>JSONDecodeError\<close>.
\<close>

definition is_ws :: "char \<Rightarrow> bool" where
  "is_ws c \<longleftrightarrow> c = CHR '' '' \<or> c = CHR 0x09 \<or> c = CHR 0x0A \<or> c = CHR 0x0D"

definition skip_ws :: "string \<Rightarrow> string" where
  "skip_ws s = dropWhile is_ws s"

subsection \<open>Strings\<close>

definition hex_val :: "char \<Rightarrow> nat option" where
  "hex_val c =
     (let n = (of_char c :: nat)
      in if 48 \<le> n \<and> n \<le> 57 then Some (n - 48)
         else if 97 \<le> n \<and> n \<le> 102 then Some (n - 87)
         else if 65 \<le> n \<and> n \<le> 70 then Some (n - 55)
         else None)"

definition hex4 :: "char \<Rightarrow> char \<Rightarrow> char \<Rightarrow> char \<Rightarrow> nat option" where
  "hex4 a b c d =
     (case (hex_val a, hex_val b, hex_val c, hex_val d) of
        (Some x, Some y, Some z, Some u) \<Rightarrow> Some (((x * 16 + y) * 16 + z) * 16 + u)
      | _ \<Rightarrow> None)"

text \<open>The UTF-8 bytes of a code point, a lone surrogate being encoded like any other.\<close>

definition utf8 :: "nat \<Rightarrow> string" where
  "utf8 n =
     (if n < 0x80 then [char_of n]
      else if n < 0x800 then [char_of (0xC0 + n div 64), char_of (0x80 + n mod 64)]
      else if n < 0x10000
      then [char_of (0xE0 + n div 4096), char_of (0x80 + n div 64 mod 64), char_of (0x80 + n mod 64)]
      else [char_of (0xF0 + n div 262144), char_of (0x80 + n div 4096 mod 64),
            char_of (0x80 + n div 64 mod 64), char_of (0x80 + n mod 64)])"

text \<open>The one-letter escapes, \<open>BACKSLASH\<close> of \<open>json.decoder\<close>.\<close>

definition unescape :: "char \<Rightarrow> char option" where
  "unescape c =
     (if c = CHR 0x22 then Some (CHR 0x22)
      else if c = CHR 0x5C then Some (CHR 0x5C)
      else if c = CHR ''/'' then Some (CHR ''/'')
      else if c = CHR ''b'' then Some (CHR 0x08)
      else if c = CHR ''f'' then Some (CHR 0x0C)
      else if c = CHR ''n'' then Some (CHR 0x0A)
      else if c = CHR ''r'' then Some (CHR 0x0D)
      else if c = CHR ''t'' then Some (CHR 0x09)
      else None)"

text \<open>
  \<open>scanstring\<close>, from the character after the opening quote: the string read and the
  text after the closing quote. A high surrogate escape followed by a low surrogate
  escape is one code point.
\<close>

fun scanstring :: "string \<Rightarrow> (string \<times> string) option" where
  "scanstring [] = None"
| "scanstring (c # cs) =
     (if c = CHR 0x22 then Some ([], cs)
      else if c = CHR 0x5C
      then (case cs of
              [] \<Rightarrow> None
            | e # es \<Rightarrow>
                if e = CHR ''u''
                then (case es of
                        h1 # h2 # h3 # h4 # r \<Rightarrow>
                          (case hex4 h1 h2 h3 h4 of
                             None \<Rightarrow> None
                           | Some n \<Rightarrow>
                               (case (if 0xD800 \<le> n \<and> n \<le> 0xDBFF
                                      then (case r of
                                              b # u # g1 # g2 # g3 # g4 # r' \<Rightarrow>
                                                if b = CHR 0x5C \<and> u = CHR ''u''
                                                then (case hex4 g1 g2 g3 g4 of
                                                        None \<Rightarrow> None
                                                      | Some m \<Rightarrow>
                                                          if 0xDC00 \<le> m \<and> m \<le> 0xDFFF
                                                          then Some (0x10000 + (n - 0xD800) * 1024 + (m - 0xDC00), 6)
                                                          else Some (n, 0))
                                                else Some (n, 0)
                                            | _ \<Rightarrow> Some (n, 0))
                                      else Some (n, 0)) of
                                  None \<Rightarrow> None
                                | Some (uni, k) \<Rightarrow>
                                    (case scanstring (drop k r) of
                                       None \<Rightarrow> None
                                     | Some (s, rest) \<Rightarrow> Some (utf8 uni @ s, rest))))
                      | _ \<Rightarrow> None)
                else (case unescape e of
                        None \<Rightarrow> None
                      | Some ch \<Rightarrow>
                          (case scanstring es of
                             None \<Rightarrow> None
                           | Some (s, rest) \<Rightarrow> Some (ch # s, rest)))
            )
      else if of_char c < (0x20 :: nat) then None
      else (case scanstring cs of
              None \<Rightarrow> None
            | Some (s, rest) \<Rightarrow> Some (c # s, rest)))"

subsection \<open>Numbers\<close>

text \<open>
  The number pattern of the scanner,
  \<^verbatim>\<open>(-?(?:0|[1-9][0-9]*))(\.[0-9]+)?([eE][-+]?[0-9]+)?\<close>,
  matched at the start of the text: the integer part, the fraction and the exponent
  when present, and the text after the match.
\<close>

definition match_fraction :: "string \<Rightarrow> string \<times> string" where
  "match_fraction r =
     (case r of
        [] \<Rightarrow> ([], r)
      | c # t \<Rightarrow>
          if c = CHR ''.'' \<and> takeWhile is_digit t \<noteq> []
          then (c # takeWhile is_digit t, dropWhile is_digit t)
          else ([], r))"

definition match_exponent :: "string \<Rightarrow> string \<times> string" where
  "match_exponent r =
     (case r of
        [] \<Rightarrow> ([], r)
      | c # t \<Rightarrow>
          if c = CHR ''e'' \<or> c = CHR ''E''
          then (let (sg, u) = (case t of
                                 [] \<Rightarrow> ([], t)
                               | d # v \<Rightarrow> if d = CHR ''+'' \<or> d = CHR ''-'' then ([d], v) else ([], t))
                in if takeWhile is_digit u \<noteq> []
                   then (c # sg @ takeWhile is_digit u, dropWhile is_digit u)
                   else ([], r))
          else ([], r))"

definition match_integer :: "string \<Rightarrow> (string \<times> string) option" where
  "match_integer s =
     (let (sg, t) = (case s of
                       [] \<Rightarrow> ([], s)
                     | c # u \<Rightarrow> if c = CHR ''-'' then ([c], u) else ([], s))
      in case t of
           [] \<Rightarrow> None
         | d # u \<Rightarrow>
             if d = CHR ''0'' then Some (sg @ [d], u)
             else if is_digit d then Some (sg @ takeWhile is_digit t, dropWhile is_digit t)
             else None)"

text \<open>
  \<open>float(text)\<close> for the text of a number with a fraction or an exponent: the float
  nearest to the decimal number, an infinity when that is beyond the largest float,
  a zero of the sign written when it rounds to zero.
\<close>

definition pow10 :: "int \<Rightarrow> rat" where
  "pow10 k = (if 0 \<le> k then 10 ^ nat k else 1 / 10 ^ nat (- k))"

definition int_of_text :: "string \<Rightarrow> int" where
  "int_of_text t =
     (case t of
        [] \<Rightarrow> 0
      | c # u \<Rightarrow> if c = CHR ''-'' then - int (nat_of_digits u)
                 else if c = CHR ''+'' then int (nat_of_digits u)
                 else int (nat_of_digits t))"

definition parse_float :: "string \<Rightarrow> string \<Rightarrow> string \<Rightarrow> pyfloat" where
  "parse_float integer fraction ex =
     (let neg = (integer \<noteq> [] \<and> hd integer = CHR ''-'');
          ds = (if neg then tl integer else integer) @ tl fraction;
          e10 = (if ex = [] then 0 else int_of_text (tl ex)) - int (length (tl fraction));
          r = round_double (of_nat (nat_of_digits ds) * pow10 e10)
      in if 2 ^ 1024 \<le> r then (if neg then NegInf else PosInf)
         else if r = 0 then (if neg then NegZero else Num 0)
         else Num (if neg then - r else r))"

definition scan_number :: "string \<Rightarrow> (json \<times> string) option" where
  "scan_number s =
     (case match_integer s of
        None \<Rightarrow> None
      | Some (integer, r) \<Rightarrow>
          (let (fraction, r1) = match_fraction r;
               (ex, r2) = match_exponent r1
           in if fraction \<noteq> [] \<or> ex \<noteq> []
              then Some (JFloat (parse_float integer fraction ex), r2)
              else Some (JInt (int_of_text integer), r2)))"

subsection \<open>Values\<close>

text \<open>\<open>dict(pairs)\<close>: a key that comes again keeps its place and takes the later value.\<close>

fun dict_set :: "(string \<times> json) list \<Rightarrow> string \<Rightarrow> json \<Rightarrow> (string \<times> json) list" where
  "dict_set [] k v = [(k, v)]"
| "dict_set ((k', v') # d) k v = (if k' = k then (k, v) # d else (k', v') # dict_set d k v)"

definition dict_of_pairs :: "(string \<times> json) list \<Rightarrow> (string \<times> json) list" where
  "dict_of_pairs pairs = foldl (\<lambda>d (k, v). dict_set d k v) [] pairs"

text \<open>
  \<open>scan_once\<close> with \<open>JSONArray\<close> and \<open>JSONObject\<close>: \<open>parse_value\<close> reads one value at the start
  of the text, \<open>parse_elements\<close> the elements of an array from its first element to the
  closing bracket, \<open>parse_members\<close> the members of an object from the character after the
  opening quote of a key to the closing brace. Each returns what it read and the text
  after it. A value takes at least one character; the test that tells the definition so
  never fails.
\<close>

function parse_value :: "string \<Rightarrow> (json \<times> string) option"
  and parse_elements :: "string \<Rightarrow> (json list \<times> string) option"
  and parse_members :: "string \<Rightarrow> ((string \<times> json) list \<times> string) option"
where
  "parse_value s =
     (case s of
        [] \<Rightarrow> None
      | c # cs \<Rightarrow>
          if c = CHR 0x22
          then (case scanstring cs of None \<Rightarrow> None | Some (str, r) \<Rightarrow> Some (JString str, r))
          else if c = CHR ''{''
          then (case skip_ws cs of
                  [] \<Rightarrow> None
                | d # ds \<Rightarrow>
                    if d = CHR ''}'' then Some (JObject [], ds)
                    else if d = CHR 0x22
                    then (case parse_members ds of
                            None \<Rightarrow> None
                          | Some (pairs, r) \<Rightarrow> Some (JObject (dict_of_pairs pairs), r))
                    else None)
          else if c = CHR ''[''
          then (case skip_ws cs of
                  [] \<Rightarrow> None
                | d # ds \<Rightarrow>
                    if d = CHR '']'' then Some (JArray [], ds)
                    else (case parse_elements (d # ds) of
                            None \<Rightarrow> None
                          | Some (vs, r) \<Rightarrow> Some (JArray vs, r)))
          else if take 4 s = ''null'' then Some (JNull, drop 4 s)
          else if take 4 s = ''true'' then Some (JBool True, drop 4 s)
          else if take 5 s = ''false'' then Some (JBool False, drop 5 s)
          else (case scan_number s of
                  Some res \<Rightarrow> Some res
                | None \<Rightarrow>
                    if take 3 s = ''NaN'' then Some (JFloat NaN, drop 3 s)
                    else if take 8 s = ''Infinity'' then Some (JFloat PosInf, drop 8 s)
                    else if take 9 s = ''-Infinity'' then Some (JFloat NegInf, drop 9 s)
                    else None))"
| "parse_elements s =
     (case parse_value s of
        None \<Rightarrow> None
      | Some (v, r) \<Rightarrow>
          if length r < length s
          then (case skip_ws r of
                  [] \<Rightarrow> None
                | d # ds \<Rightarrow>
                    if d = CHR '']'' then Some ([v], ds)
                    else if d = CHR '',''
                    then (case parse_elements (skip_ws ds) of
                            None \<Rightarrow> None
                          | Some (vs, r') \<Rightarrow> Some (v # vs, r'))
                    else None)
          else None)"
| "parse_members s =
     (case scanstring s of
        None \<Rightarrow> None
      | Some (key, r) \<Rightarrow>
          (case skip_ws r of
             [] \<Rightarrow> None
           | c # cs \<Rightarrow>
               if c = CHR '':'' \<and> length cs < length s
               then (case parse_value (skip_ws cs) of
                       None \<Rightarrow> None
                     | Some (v, r') \<Rightarrow>
                         if length r' < length s
                         then (case skip_ws r' of
                                 [] \<Rightarrow> None
                               | d # ds \<Rightarrow>
                                   if d = CHR ''}'' then Some ([(key, v)], ds)
                                   else if d = CHR '',''
                                   then (case skip_ws ds of
                                           [] \<Rightarrow> None
                                         | q # qs \<Rightarrow>
                                             if q = CHR 0x22
                                             then (case parse_members qs of
                                                     None \<Rightarrow> None
                                                   | Some (pairs, r'') \<Rightarrow> Some ((key, v) # pairs, r''))
                                             else None)
                                   else None)
                         else None)
               else None))"
  by pat_completeness auto

text \<open>\<open>json.loads(s)\<close>: one value, with white space before and after it and nothing else.\<close>

definition json_loads :: "string \<Rightarrow> json option" where
  "json_loads s =
     (case parse_value (skip_ws s) of
        None \<Rightarrow> None
      | Some (v, r) \<Rightarrow> if skip_ws r = [] then Some v else None)"

section \<open>Reading back what was written\<close>

text \<open>
  In the text that \<open>json.dumps\<close> writes, a value is followed by a comma, by a line feed,
  or by nothing: \<open>terminated\<close>. The text of a finite float reads back when the number
  scanner reads all of it as that float, which is what Python promises of \<open>repr\<close> and
  \<open>float\<close>: \<open>reads_back\<close>.
\<close>

definition terminated :: "string \<Rightarrow> bool" where
  "terminated rest \<longleftrightarrow> (case rest of [] \<Rightarrow> True | c # cs \<Rightarrow> c = CHR '','' \<or> c = CHR 0x0A)"

definition reads_back :: "(rat \<Rightarrow> string) \<Rightarrow> pyfloat \<Rightarrow> bool" where
  "reads_back fr x =
     (case x of Num q \<Rightarrow> scan_number (fr q) = Some (JFloat (Num q), []) | _ \<Rightarrow> True)"

text \<open>
  The values that \<open>format_output\<close> can hand to \<open>json.dumps\<close>: strings, floats whose text
  reads back, lists of such values, and dicts of such values (the keys of a dict are
  pairwise different).
\<close>

fun plain :: "(rat \<Rightarrow> string) \<Rightarrow> json \<Rightarrow> bool" where
  "plain fr (JString s) = True"
| "plain fr (JFloat x) = reads_back fr x"
| "plain fr (JArray vs) = (\<forall>v \<in> set vs. plain fr v)"
| "plain fr (JObject kvs) = (distinct (map fst kvs) \<and> (\<forall>kv \<in> set kvs. plain fr (snd kv)))"
| "plain fr JNull = False"
| "plain fr (JBool b) = False"
| "plain fr (JInt i) = False"

definition value_start :: "char \<Rightarrow> bool" where
  "value_start c \<longleftrightarrow>
     c = CHR 0x22 \<or> c = CHR ''['' \<or> c = CHR ''{'' \<or> c = CHR ''-'' \<or> c = CHR ''N'' \<or>
     c = CHR ''I'' \<or> is_digit c"

section \<open>Facts and properties\<close>

subsection \<open>Choosing the output path\<close>

lemma digit_val_digit_char: "d < 10 \<Longrightarrow> digit_val (digit_char d) = d"
  by (simp add: digit_val_def digit_char_def)

lemma nat_of_digits_str_nat: "nat_of_digits (str_nat n) = n"
proof (induction n rule: str_nat.induct)
  case (1 n)
  show ?case
  proof (cases "n < 10")
    case True
    then show ?thesis
      by (simp add: str_nat.simps [of n] nat_of_digits_def digit_val_digit_char)
  next
    case False
    with 1 have "nat_of_digits (str_nat (n div 10)) = n div 10" by simp
    with False show ?thesis
      by (simp add: str_nat.simps [of n] nat_of_digits_def digit_val_digit_char)
  qed
qed

lemma str_nat_inj: "str_nat n = str_nat m \<Longrightarrow> n = m"
  by (metis nat_of_digits_str_nat)

lemma is_digit_digit_char: "d < 10 \<Longrightarrow> is_digit (digit_char d)"
  by (simp add: is_digit_def digit_char_def)

lemma str_nat_digits: "\<forall>c \<in> set (str_nat n). is_digit c"
proof (induction n rule: str_nat.induct)
  case (1 n)
  show ?case
  proof (cases "n < 10")
    case True
    then show ?thesis by (simp add: str_nat.simps [of n] is_digit_digit_char)
  next
    case False
    with 1 show ?thesis by (simp add: str_nat.simps [of n] is_digit_digit_char)
  qed
qed

lemma str_nat_nonempty: "str_nat n \<noteq> []"
  by (simp add: str_nat.simps [of n])

lemma split_slash_nonempty: "split_slash s \<noteq> []"
  by (induction s) (auto split: list.splits)

lemma split_slash_digits:
  "\<forall>c \<in> set ds. c \<noteq> CHR ''/'' \<Longrightarrow> split_slash (ds @ s) = (ds @ hd (split_slash s)) # tl (split_slash s)"
  using split_slash_nonempty [of s]
  by (induction ds) (auto split: list.splits)

lemma split_slash_append:
  "split_slash (u @ v) =
     butlast (split_slash u) @ (last (split_slash u) @ hd (split_slash v)) # tl (split_slash v)"
proof (induction u)
  case Nil
  then show ?case using split_slash_nonempty [of v] by simp
next
  case (Cons c u)
  show ?case
  proof (cases "c = CHR ''/''")
    case True
    with Cons show ?thesis using split_slash_nonempty [of u] by simp
  next
    case False
    obtain w ws where u: "split_slash u = w # ws"
      using split_slash_nonempty [of u] by (cases "split_slash u") auto
    show ?thesis
    proof (cases ws)
      case Nil
      with False u Cons show ?thesis by simp
    next
      case (Cons a as)
      with False u Cons.IH show ?thesis by simp
    qed
  qed
qed

lemma digit_not_slash: "is_digit c \<Longrightarrow> c \<noteq> CHR ''/''"
  by (auto simp: is_digit_def)

lemma digit_not_dot: "is_digit c \<Longrightarrow> c \<noteq> CHR ''.''"
  by (auto simp: is_digit_def)

lemma split_slash_numbered:
  "split_slash (a @ str_nat n @ b) =
     butlast (split_slash a) @ (last (split_slash a) @ str_nat n @ hd (split_slash b)) # tl (split_slash b)"
proof -
  have "\<forall>c \<in> set (str_nat n). c \<noteq> CHR ''/''"
    using str_nat_digits [of n] digit_not_slash by blast
  then have "split_slash (str_nat n @ b) = (str_nat n @ hd (split_slash b)) # tl (split_slash b)"
    by (rule split_slash_digits)
  then show ?thesis by (simp add: split_slash_append [of a])
qed

lemma proper_part_numbered: "proper_part (l @ str_nat n @ h)"
proof -
  obtain d ds where ds: "str_nat n = d # ds"
    using str_nat_nonempty [of n] by (cases "str_nat n") auto
  then have "is_digit d" using str_nat_digits [of n] by simp
  then have "d \<noteq> CHR ''.''" by (rule digit_not_dot)
  moreover have "d \<in> set (l @ str_nat n @ h)" using ds by simp
  ultimately have "set (l @ str_nat n @ h) \<noteq> set ''.''" by (metis empty_iff insert_iff list.simps(15) set_empty2)
  then have "l @ str_nat n @ h \<noteq> ''.''" by metis
  moreover have "l @ str_nat n @ h \<noteq> []" using ds by simp
  ultimately show ?thesis by (simp add: proper_part_def)
qed

lemma parts_numbered_inj:
  assumes "parts (path_of_str (a @ str_nat n @ b)) = parts (path_of_str (a @ str_nat m @ b))"
  shows "n = m"
proof -
  let ?B = "filter proper_part (butlast (split_slash a))"
  let ?T = "filter proper_part (tl (split_slash b))"
  let ?l = "last (split_slash a)" and ?h = "hd (split_slash b)"
  have "?B @ (?l @ str_nat n @ ?h) # ?T = ?B @ (?l @ str_nat m @ ?h) # ?T"
    using assms by (simp add: path_of_str_def Let_def split_slash_numbered proper_part_numbered)
  then have "str_nat n = str_nat m" by simp
  then show ?thesis by (rule str_nat_inj)
qed

lemma leading_slashes_numbered:
  "takeWhile (\<lambda>c. c = CHR ''/'') (st @ CHR ''-'' # rest) = takeWhile (\<lambda>c. c = CHR ''/'') st"
  by (induction st) auto

lemma anchor_numbered:
  "anchor (path_of_str (st @ ''-'' @ str_nat n @ suf)) = anchor (path_of_str (st @ ''-'' @ str_nat m @ suf))"
proof -
  show ?thesis by (simp add: path_of_str_def Let_def leading_slashes_numbered)
qed

lemma numbered_inj: "numbered par st suf n = numbered par st suf m \<Longrightarrow> n = m"
proof -
  assume eq: "numbered par st suf n = numbered par st suf m"
  let ?qn = "path_of_str (st @ ''-'' @ str_nat n @ suf)"
  let ?qm = "path_of_str (st @ ''-'' @ str_nat m @ suf)"
  have an: "anchor ?qn = anchor ?qm" by (rule anchor_numbered)
  have "parts ?qn = parts ?qm"
  proof (cases "anchor ?qn = []")
    case True
    with an eq show ?thesis by (simp add: numbered_def joinpath_def Let_def)
  next
    case False
    with an eq show ?thesis by (simp add: numbered_def joinpath_def Let_def)
  qed
  then have "parts (path_of_str ((st @ ''-'') @ str_nat n @ suf)) = parts (path_of_str ((st @ ''-'') @ str_nat m @ suf))"
    by simp
  then show "n = m" by (rule parts_numbered_inj)
qed

lemma finite_numbered_existing: "finite {n. path_exists fs (numbered par st suf n)}"
proof -
  have "inj (numbered par st suf)" by (auto simp: inj_on_def dest: numbered_inj)
  then have "finite (numbered par st suf -` fst ` set fs)" by (simp add: finite_vimageI)
  moreover have "{n. path_exists fs (numbered par st suf n)} \<subseteq> numbered par st suf -` fst ` set fs"
    by (auto simp: path_exists_def map_of_eq_None_iff)
  ultimately show ?thesis by (rule rev_finite_subset)
qed

termination unique_loop
proof (relation "measure (\<lambda>(fs, par, st, suf, counter). card {n. counter \<le> n \<and> path_exists fs (numbered par st suf n)})")
  show "wf (measure (\<lambda>(fs, par, st, suf, counter). card {n. counter \<le> n \<and> path_exists fs (numbered par st suf n)}))"
    by simp
next
  fix fs par st suf counter new_path
  assume np: "new_path = joinpath par (st @ ''-'' @ str_nat counter @ suf)"
    and ex: "\<not> \<not> path_exists fs new_path"
  let ?S = "\<lambda>c. {n. c \<le> n \<and> path_exists fs (numbered par st suf n)}"
  have fin: "finite (?S counter)"
    using finite_numbered_existing [of fs par st suf] by simp
  have "counter \<in> ?S counter" using np ex by (simp add: numbered_def)
  moreover have "counter \<notin> ?S (counter + 1)" by simp
  moreover have "?S (counter + 1) \<subseteq> ?S counter" by auto
  ultimately have "?S (counter + 1) \<subset> ?S counter" by blast
  with fin have "card (?S (counter + 1)) < card (?S counter)" by (rule psubset_card_mono)
  then show "((fs, par, st, suf, counter + 1), (fs, par, st, suf, counter))
      \<in> measure (\<lambda>(fs, par, st, suf, counter). card {n. counter \<le> n \<and> path_exists fs (numbered par st suf n)})"
    by simp
qed

declare unique_loop.simps [simp del]

lemma unique_loop_least:
  "\<exists>n\<ge>counter. unique_loop fs par st suf counter = numbered par st suf n \<and>
     \<not> path_exists fs (numbered par st suf n) \<and>
     (\<forall>k. counter \<le> k \<and> k < n \<longrightarrow> path_exists fs (numbered par st suf k))"
proof (induction fs par st suf counter rule: unique_loop.induct)
  case (1 fs par st suf counter)
  show ?case
  proof (cases "path_exists fs (numbered par st suf counter)")
    case False
    then have "unique_loop fs par st suf counter = numbered par st suf counter"
      by (simp add: unique_loop.simps [of fs par st suf counter] numbered_def)
    with False show ?thesis by auto
  next
    case True
    then have step: "unique_loop fs par st suf counter = unique_loop fs par st suf (counter + 1)"
      by (simp add: unique_loop.simps [of fs par st suf counter] numbered_def)
    from True obtain n where n: "counter + 1 \<le> n"
      "unique_loop fs par st suf (counter + 1) = numbered par st suf n"
      "\<not> path_exists fs (numbered par st suf n)"
      "\<forall>k. counter + 1 \<le> k \<and> k < n \<longrightarrow> path_exists fs (numbered par st suf k)"
      using "1.IH" [OF refl] by (auto simp: numbered_def)
    have "\<forall>k. counter \<le> k \<and> k < n \<longrightarrow> path_exists fs (numbered par st suf k)"
    proof (intro allI impI)
      fix k assume k: "counter \<le> k \<and> k < n"
      show "path_exists fs (numbered par st suf k)"
      proof (cases "k = counter")
        case True
        with \<open>path_exists fs (numbered par st suf counter)\<close> show ?thesis by simp
      next
        case False
        with k n(4) show ?thesis by simp
      qed
    qed
    with n step show ?thesis by (intro exI [of _ n]) simp
  qed
qed








subsection \<open>Describing a run\<close>

lemma main_validated:
  assumes "passes_validation e w inputs output" "from_pretrained e = Inr model"
  shows "main e w inputs output fmt quiet =
     (case process_inputs e model output fmt quiet True (download_notice e w quiet) (expand_paths e inputs) of
        (Inl err, w') \<Rightarrow> (Uncaught err, w')
      | (Inr success, w') \<Rightarrow> (Exit (if success then 0 else 1), w'))"
proof -
  have "filter (\<lambda>p. \<not> path_exists (files w) p) (expand_paths e inputs) = []"
    using assms(1) by (auto simp: passes_validation_def filter_empty_conv)
  then show ?thesis
    using assms by (auto simp add: main_def passes_validation_def Let_def)
qed

lemma get_unique_output_path_fresh: "\<not> path_exists fs (get_unique_output_path fs base)"
  using unique_loop_least [of 1 fs "parent base" "stem base" "suffix base"]
  by (auto simp: get_unique_output_path_def)

lemma get_output_path_fresh: "\<not> path_exists fs (get_output_path fs p output fmt)"
  by (simp add: get_output_path_def Let_def get_unique_output_path_fresh)

lemma write_text_Inr: "write_text fs p c = Inr fs' \<Longrightarrow> fs' = (p, File c) # fs"
  by (auto simp: write_text_def split: option.splits node.splits bool.splits)

lemma transcribe_raised:
  assumes "model (str_path p) = Raised msg"
  shows "transcribe e model w p out fmt quiet =
     (Inr False, w\<lparr>stderr := stderr w @ (if quiet then [] else diagnostics model p),
                   transcribed := transcribed w @ [str_path p]\<rparr>)"
  using assms by (simp add: transcribe_def diagnostics_def Let_def)

lemma transcribe_returned:
  assumes "model (str_path p) = Returned r"
  shows "transcribe e model w p out fmt quiet =
     (case format_output (float_repr e) r fmt of
        Inl err \<Rightarrow> (Inl err, w\<lparr>stderr := stderr w @ (if quiet then [] else diagnostics model p),
                               transcribed := transcribed w @ [str_path p]\<rparr>)
      | Inr c \<Rightarrow>
          (case write_text (files w) out c of
             Inl err \<Rightarrow> (Inl err, w\<lparr>stderr := stderr w @ (if quiet then [] else diagnostics model p),
                               transcribed := transcribed w @ [str_path p]\<rparr>)
           | Inr fs' \<Rightarrow> (Inr True, w\<lparr>stderr := stderr w @ (if quiet then [] else diagnostics model p),
                               transcribed := transcribed w @ [str_path p],
                               files := fs', stdout := stdout w @ [str_path out]\<rparr>)))"
  using assms by (simp add: transcribe_def diagnostics_def Let_def split: sum.splits)

lemma path_exists_Cons: "path_exists ((q, n) # fs) p \<longleftrightarrow> p = q \<or> path_exists fs p"
  by (auto simp: path_exists_def)

lemma process_inputs_append:
  "process_inputs e model output fmt quiet success w (pre @ qs) =
     (case process_inputs e model output fmt quiet success w pre of
        (Inl err, w') \<Rightarrow> (Inl err, w')
      | (Inr s, w') \<Rightarrow> process_inputs e model output fmt quiet s w' qs)"
  by (induction pre arbitrary: success w) (auto simp: Let_def split: prod.splits sum.splits)

lemma process_inputs_Inr:
  "process_inputs e model output fmt quiet success w ps = (Inr b, w') \<Longrightarrow>
     transcribed w' = transcribed w @ map str_path ps \<and>
     (b \<longleftrightarrow> success \<and> list_all (succeeded model) ps) \<and>
     stderr w' = stderr w @ (if quiet then [] else concat (map (diagnostics model) ps)) \<and>
     (\<exists>new. files w' = rev new @ files w \<and>
            list_all2 (written_for e model fmt) (filter (succeeded model) ps) new \<and>
            stdout w' = stdout w @ map (\<lambda>en. str_path (fst en)) new \<and>
            distinct (map fst new) \<and> (\<forall>en \<in> set new. \<not> path_exists (files w) (fst en)))"
proof (induction ps arbitrary: success w)
  case Nil
  then show ?case by simp
next
  case (Cons p rest)
  let ?out = "get_output_path (files w) p output fmt"
  let ?w2 = "w\<lparr>stderr := stderr w @ (if quiet then [] else diagnostics model p),
                transcribed := transcribed w @ [str_path p]\<rparr>"
  show ?case
  proof (cases "model (str_path p)")
    case (Raised msg)
    then have ns: "\<not> succeeded model p" by (simp add: succeeded_def)
    from Raised have "transcribe e model w p ?out fmt quiet = (Inr False, ?w2)"
      by (simp add: transcribe_raised [where model = model])
    with Cons.prems have run: "process_inputs e model output fmt quiet False ?w2 rest = (Inr b, w')"
      by (simp add: Let_def)
    from Cons.IH [OF run] obtain new where new:
      "transcribed w' = transcribed ?w2 @ map str_path rest"
      "b \<longleftrightarrow> False \<and> list_all (succeeded model) rest"
      "stderr w' = stderr ?w2 @ (if quiet then [] else concat (map (diagnostics model) rest))"
      "files w' = rev new @ files ?w2"
      "list_all2 (written_for e model fmt) (filter (succeeded model) rest) new"
      "stdout w' = stdout ?w2 @ map (\<lambda>en. str_path (fst en)) new"
      "distinct (map fst new)" "\<forall>en \<in> set new. \<not> path_exists (files ?w2) (fst en)"
      by blast
    have "\<exists>new. files w' = rev new @ files w \<and>
            list_all2 (written_for e model fmt) (filter (succeeded model) (p # rest)) new \<and>
            stdout w' = stdout w @ map (\<lambda>en. str_path (fst en)) new \<and>
            distinct (map fst new) \<and> (\<forall>en \<in> set new. \<not> path_exists (files w) (fst en))"
      using new(4-8) ns by (intro exI [of _ new]) simp
    moreover have "transcribed w' = transcribed w @ map str_path (p # rest)"
      using new(1) by simp
    moreover have "b \<longleftrightarrow> success \<and> list_all (succeeded model) (p # rest)"
      using new(2) ns by simp
    moreover have "stderr w' = stderr w @ (if quiet then [] else concat (map (diagnostics model) (p # rest)))"
      using new(3) by simp
    ultimately show ?thesis by blast
  next
    case (Returned r)
    then have su: "succeeded model p" by (simp add: succeeded_def)
    note tr = transcribe_returned [where model = model and p = p and r = r and e = e and w = w
        and out = ?out and fmt = fmt and quiet = quiet, OF Returned]
    show ?thesis
    proof (cases "format_output (float_repr e) r fmt")
      case (Inl err)
      with tr Cons.prems show ?thesis by (simp add: Let_def)
    next
      case (Inr c)
      show ?thesis
      proof (cases "write_text (files w) ?out c")
        case (Inl err)
        with tr Inr Cons.prems show ?thesis by (simp add: Let_def)
      next
        case fs': (Inr fs')
        then have fs'_eq: "fs' = (?out, File c) # files w" by (rule write_text_Inr)
        let ?w3 = "?w2\<lparr>files := fs', stdout := stdout w @ [str_path ?out]\<rparr>"
        from tr Inr fs' have "transcribe e model w p ?out fmt quiet = (Inr True, ?w3)"
          by simp
        with Cons.prems have run: "process_inputs e model output fmt quiet success ?w3 rest = (Inr b, w')"
          by (simp add: Let_def)
        from Cons.IH [OF run] obtain new where new:
          "transcribed w' = transcribed ?w3 @ map str_path rest"
          "b \<longleftrightarrow> success \<and> list_all (succeeded model) rest"
          "stderr w' = stderr ?w3 @ (if quiet then [] else concat (map (diagnostics model) rest))"
          "files w' = rev new @ files ?w3"
          "list_all2 (written_for e model fmt) (filter (succeeded model) rest) new"
          "stdout w' = stdout ?w3 @ map (\<lambda>en. str_path (fst en)) new"
          "distinct (map fst new)" "\<forall>en \<in> set new. \<not> path_exists (files ?w3) (fst en)"
          by blast
        let ?new = "(?out, File c) # new"
        have fresh: "\<not> path_exists (files w) ?out" by (rule get_output_path_fresh)
        have later: "\<forall>en \<in> set new. fst en \<noteq> ?out \<and> \<not> path_exists (files w) (fst en)"
          using new(8) by (simp add: fs'_eq path_exists_Cons)
        have wf: "written_for e model fmt p (?out, File c)"
          using Returned Inr by (auto simp: written_for_def)
        have "files w' = rev ?new @ files w" using new(4) by (simp add: fs'_eq)
        moreover have "list_all2 (written_for e model fmt) (filter (succeeded model) (p # rest)) ?new"
          using new(5) su wf by simp
        moreover have "stdout w' = stdout w @ map (\<lambda>en. str_path (fst en)) ?new"
          using new(6) by simp
        moreover have "distinct (map fst ?new)" using new(7) later by auto
        moreover have "\<forall>en \<in> set ?new. \<not> path_exists (files w) (fst en)"
          using later fresh by simp
        ultimately have "\<exists>new. files w' = rev new @ files w \<and>
            list_all2 (written_for e model fmt) (filter (succeeded model) (p # rest)) new \<and>
            stdout w' = stdout w @ map (\<lambda>en. str_path (fst en)) new \<and>
            distinct (map fst new) \<and> (\<forall>en \<in> set new. \<not> path_exists (files w) (fst en))"
          by blast
        moreover have "transcribed w' = transcribed w @ map str_path (p # rest)"
          using new(1) by simp
        moreover have "b \<longleftrightarrow> success \<and> list_all (succeeded model) (p # rest)"
          using new(2) su by simp
        moreover have "stderr w' = stderr w @ (if quiet then [] else concat (map (diagnostics model) (p # rest)))"
          using new(3) by simp
        ultimately show ?thesis by blast
      qed
    qed
  qed
qed

lemma crash_step:
  assumes "crashes_at e model output fmt (files w) p err"
  shows "process_inputs e model output fmt quiet success w (p # rest) =
     (Inl err, w\<lparr>stderr := stderr w @ (if quiet then [] else diagnostics model p),
                  transcribed := transcribed w @ [str_path p]\<rparr>)"
proof -
  from assms obtain r where r: "model (str_path p) = Returned r"
    and f: "format_output (float_repr e) r fmt = Inl err \<or>
         (\<exists>c. format_output (float_repr e) r fmt = Inr c \<and>
              write_text (files w) (get_output_path (files w) p output fmt) c = Inl err)"
    by (auto simp: crashes_at_def)
  note tr = transcribe_returned [where model = model and p = p and r = r and e = e and w = w
      and out = "get_output_path (files w) p output fmt" and fmt = fmt and quiet = quiet, OF r]
  from f show ?thesis
  proof
    assume "format_output (float_repr e) r fmt = Inl err"
    with tr show ?thesis by (simp add: Let_def)
  next
    assume "\<exists>c. format_output (float_repr e) r fmt = Inr c \<and>
              write_text (files w) (get_output_path (files w) p output fmt) c = Inl err"
    with tr show ?thesis by (auto simp: Let_def)
  qed
qed

lemma process_inputs_Inl:
  "process_inputs e model output fmt quiet success w ps = (Inl err, w') \<Longrightarrow>
     \<exists>pre p rest s w1. ps = pre @ p # rest \<and>
        process_inputs e model output fmt quiet success w pre = (Inr s, w1) \<and>
        crashes_at e model output fmt (files w1) p err \<and>
        w' = w1\<lparr>stderr := stderr w1 @ (if quiet then [] else diagnostics model p),
                 transcribed := transcribed w1 @ [str_path p]\<rparr>"
proof (induction ps arbitrary: success w)
  case Nil
  then show ?case by simp
next
  case (Cons p rest)
  let ?out = "get_output_path (files w) p output fmt"
  obtain res w2 where t: "transcribe e model w p ?out fmt quiet = (res, w2)"
    by (cases "transcribe e model w p ?out fmt quiet")
  show ?case
  proof (cases res)
    case (Inl err2)
    with t Cons.prems have e2: "err2 = err" "w2 = w'" by (simp_all add: Let_def)
    have cr: "crashes_at e model output fmt (files w) p err \<and>
        w' = w\<lparr>stderr := stderr w @ (if quiet then [] else diagnostics model p),
                 transcribed := transcribed w @ [str_path p]\<rparr>"
    proof (cases "model (str_path p)")
      case (Raised msg)
      from transcribe_raised [where model = model and p = p and msg = msg and e = e and w = w
          and out = ?out and fmt = fmt and quiet = quiet, OF Raised] t Inl
      show ?thesis by simp
    next
      case (Returned r)
      from transcribe_returned [where model = model and p = p and r = r and e = e and w = w
          and out = ?out and fmt = fmt and quiet = quiet, OF Returned] t Inl e2 Returned
      show ?thesis
        by (auto simp: crashes_at_def split: sum.splits)
    qed
    have "p # rest = [] @ p # rest \<and>
        process_inputs e model output fmt quiet success w [] = (Inr success, w)" by simp
    with cr show ?thesis by blast
  next
    case (Inr ok)
    with t Cons.prems have run:
      "process_inputs e model output fmt quiet (if \<not> ok then False else success) w2 rest = (Inl err, w')"
      by (simp add: Let_def)
    from Cons.IH [OF run] obtain pre q rest' s w1 where ih:
      "rest = pre @ q # rest'"
      "process_inputs e model output fmt quiet (if \<not> ok then False else success) w2 pre = (Inr s, w1)"
      "crashes_at e model output fmt (files w1) q err"
      "w' = w1\<lparr>stderr := stderr w1 @ (if quiet then [] else diagnostics model q),
                 transcribed := transcribed w1 @ [str_path q]\<rparr>"
      by blast
    have "process_inputs e model output fmt quiet success w (p # pre) = (Inr s, w1)"
      using t Inr ih(2) by (simp add: Let_def)
    moreover have "p # rest = (p # pre) @ q # rest'" using ih(1) by simp
    ultimately show ?thesis using ih(3,4) by blast
  qed
qed

subsection \<open>Float arithmetic of the timestamp\<close>

text \<open>
  Rounding keeps the sign and keeps whole numbers whole, and a whole number below
  \<open>2^53\<close> is a float. So on a float from \<open>0\<close> up to \<open>2^53\<close> the operators \<open>//\<close> and \<open>%\<close> by
  3600, 60 and 1 are exact.
\<close>

lemma pow2_pos: "0 < pow2 k"
  by (simp add: pow2_def)

lemma round_half_even_of_int: "round_half_even (of_int k) = k"
  by (simp add: round_half_even_def)

lemma round_half_even_nonneg: "0 \<le> m \<Longrightarrow> 0 \<le> round_half_even m"
  by (auto simp: round_half_even_def Let_def)

lemma round_double_nonneg: "0 \<le> q \<Longrightarrow> 0 \<le> round_double q"
proof -
  assume q: "0 \<le> q"
  show ?thesis
  proof (cases "q = 0")
    case True
    then show ?thesis by (simp add: round_double_def)
  next
    case False
    let ?p = "max (ilog2 \<bar>q\<bar> - 52) (- 1074)"
    have "0 \<le> \<bar>q\<bar> / pow2 ?p" using pow2_pos [of ?p] by simp
    then have "0 \<le> round_half_even (\<bar>q\<bar> / pow2 ?p)" by (rule round_half_even_nonneg)
    then have "0 \<le> sgn q * of_int (round_half_even (\<bar>q\<bar> / pow2 ?p)) * pow2 ?p"
      using q False pow2_pos [of ?p] by (simp add: sgn_if)
    with False show ?thesis by (simp add: round_double_def Let_def)
  qed
qed

lemma pow2_neg_inverse: "p \<le> 0 \<Longrightarrow> pow2 p = 1 / 2 ^ nat (- p)"
  by (cases "p = 0") (simp_all add: pow2_def)

lemma scaled_int_exact:
  assumes "p \<le> 0"
  shows "of_int (round_half_even (of_int k / pow2 p)) * pow2 p = of_int k"
proof -
  have "of_int k / pow2 p = (of_int (k * 2 ^ nat (- p)) :: rat)"
    using assms by (simp add: pow2_neg_inverse)
  then have "round_half_even (of_int k / pow2 p) = k * 2 ^ nat (- p)"
    by (simp only: round_half_even_of_int)
  then show ?thesis using assms by (simp add: pow2_neg_inverse)
qed

lemma round_double_of_int_exact:
  assumes "max (ilog2 \<bar>of_int n\<bar> - 52) (- 1074) \<le> 0"
  shows "round_double (of_int n) = of_int n"
proof (cases "n = 0")
  case True
  then show ?thesis by (simp add: round_double_def)
next
  case False
  let ?p = "max (ilog2 \<bar>of_int n\<bar> - 52) (- 1074)"
  have "of_int (round_half_even (\<bar>of_int n :: rat\<bar> / pow2 ?p)) * pow2 ?p = (of_int \<bar>n\<bar> :: rat)"
    using scaled_int_exact [OF assms, of "\<bar>n\<bar>"] by simp
  then have "sgn (of_int n :: rat) * of_int (round_half_even (\<bar>of_int n :: rat\<bar> / pow2 ?p)) * pow2 ?p
      = sgn (of_int n) * of_int \<bar>n\<bar>"
    by (simp add: mult.assoc)
  also have "\<dots> = of_int n" by (simp add: sgn_if)
  finally show ?thesis using False by (simp add: round_double_def Let_def)
qed

lemma round_double_of_int_is_int: "\<exists>k. round_double (of_int n) = of_int k"
proof (cases "max (ilog2 \<bar>of_int n\<bar> - 52) (- 1074) \<le> 0")
  case True
  then show ?thesis using round_double_of_int_exact by blast
next
  case False
  let ?p = "max (ilog2 \<bar>of_int n\<bar> - 52) (- 1074)"
  from False have p: "0 \<le> ?p" by simp
  then have pw: "pow2 ?p = of_int (2 ^ nat ?p)" by (simp add: pow2_def)
  show ?thesis
  proof (cases "n = 0")
    case True
    then show ?thesis by (simp add: round_double_def)
  next
    case nz: False
    have "round_double (of_int n) =
        of_int (sgn n * round_half_even (\<bar>of_int n\<bar> / pow2 ?p) * 2 ^ nat ?p)"
      using nz by (simp add: round_double_def Let_def pw sgn_if)
    then show ?thesis by blast
  qed
qed

lemma ilog2_of_int: "0 < n \<Longrightarrow> ilog2 (of_int n) = bitlen n - 1"
proof -
  assume n: "0 < n"
  have b: "1 \<le> bitlen n" using n by (simp add: bitlen_alt_def)
  have b1: "bitlen 1 = 1" by (simp add: bitlen_alt_def)
  have "(2::int) ^ nat (bitlen n - 1) \<le> n" using bitlen_bounds [OF n] by simp
  then have "(of_int ((2::int) ^ nat (bitlen n - 1)) :: rat) \<le> of_int n"
    by (simp only: of_int_le_iff)
  then have "pow2 (bitlen n - 1) \<le> of_int n" using b by (simp add: pow2_def)
  then show ?thesis by (simp add: ilog2_def b1)
qed

lemma bitlen_le_53: "0 < n \<Longrightarrow> n < 2 ^ 53 \<Longrightarrow> bitlen n \<le> 53"
proof -
  assume n: "0 < n" "n < 2 ^ 53"
  have "(2::int) ^ nat (bitlen n - 1) \<le> n" using bitlen_bounds [OF n(1)] by simp
  then have h: "(2::int) ^ nat (bitlen n - 1) < 2 ^ 53" using n(2) by (rule le_less_trans)
  have "nat (bitlen n - 1) < 53" by (rule power_less_imp_less_exp [OF _ h]) simp
  then show ?thesis by simp
qed

lemma round_double_small_int:
  assumes "\<bar>n\<bar> < 2 ^ 53"
  shows "round_double (of_int n) = of_int n"
proof (cases "n = 0")
  case True
  then show ?thesis by (simp add: round_double_def)
next
  case False
  then have pos: "0 < \<bar>n\<bar>" by simp
  have "ilog2 \<bar>of_int n\<bar> = bitlen \<bar>n\<bar> - 1"
    using ilog2_of_int [OF pos] by simp
  moreover have "bitlen \<bar>n\<bar> \<le> 53" using pos assms by (rule bitlen_le_53)
  ultimately have "max (ilog2 \<bar>of_int n\<bar> - 52) (- 1074) \<le> 0" by simp
  then show ?thesis by (rule round_double_of_int_exact)
qed

lemma trunc_nonneg: "0 \<le> x \<Longrightarrow> trunc x = \<lfloor>x\<rfloor>"
  by (simp add: trunc_def)

lemma trunc_of_int: "trunc (of_int k) = k"
  by (simp add: trunc_def)

lemma floor_remainder_range:
  fixes s w :: rat
  assumes "0 < w"
  shows "0 \<le> s - w * of_int \<lfloor>s / w\<rfloor> \<and> s - w * of_int \<lfloor>s / w\<rfloor> < w"
proof -
  have "of_int \<lfloor>s / w\<rfloor> \<le> s / w" by (rule of_int_floor_le)
  then have "of_int \<lfloor>s / w\<rfloor> * w \<le> s"
    using assms by (simp only: pos_le_divide_eq)
  then have lo: "w * of_int \<lfloor>s / w\<rfloor> \<le> s" by (simp only: mult.commute)
  have "s / w < of_int \<lfloor>s / w\<rfloor> + 1" using floor_correct [of "s / w"] by simp
  then have "s < (of_int \<lfloor>s / w\<rfloor> + 1) * w"
    using assms by (simp add: pos_divide_less_eq)
  then have hi: "s - w * of_int \<lfloor>s / w\<rfloor> < w" by (simp add: algebra_simps)
  from lo hi show ?thesis by simp
qed

lemma fmod_nonneg:
  assumes "0 \<le> s" "0 < w"
  shows "fmod s w = s - w * of_int \<lfloor>s / w\<rfloor>"
proof -
  have "0 \<le> s / w" using assms by simp
  then show ?thesis by (simp add: fmod_def trunc_nonneg)
qed

lemma fmod_neg:
  assumes "s < 0" "0 < w"
  shows "fmod s w = - ((- s) - w * of_int \<lfloor>(- s) / w\<rfloor>)"
proof -
  have "s / w < 0" using assms by (simp add: divide_neg_pos)
  then show ?thesis by (simp add: fmod_def trunc_def algebra_simps)
qed

lemma fmod_bounds:
  assumes "0 < w"
  shows "- w < fmod s w \<and> fmod s w < w"
proof (cases "0 \<le> s")
  case True
  with floor_remainder_range [OF assms, of s] assms show ?thesis by (simp add: fmod_nonneg)
next
  case False
  then have "s < 0" by simp
  with floor_remainder_range [OF assms, of "- s"] assms show ?thesis by (simp add: fmod_neg)
qed

lemma float_rem_exact:
  assumes "0 \<le> s" "0 < w"
  shows "float_rem s w = s - w * of_int \<lfloor>s / w\<rfloor>"
  using floor_remainder_range [OF assms(2), of s] assms
  by (auto simp: float_rem_def Let_def fmod_nonneg)

lemma float_rem_nonneg:
  assumes "0 < w"
  shows "0 \<le> float_rem s w"
proof -
  let ?m = "fmod s w"
  have b: "- w < ?m \<and> ?m < w" using assms by (rule fmod_bounds)
  show ?thesis
  proof (cases "?m < 0")
    case True
    have "0 \<le> ?m + w" using b by simp
    then have "0 \<le> round_double (?m + w)" by (rule round_double_nonneg)
    with True assms show ?thesis by (simp add: float_rem_def Let_def fadd_def)
  next
    case False
    with assms show ?thesis by (simp add: float_rem_def Let_def)
  qed
qed

lemma float_floor_div_is_int: "\<exists>k. float_floor_div s w = of_int k"
proof -
  let ?m = "fmod s w"
  let ?d = "fdiv (fsub s ?m) w"
  let ?d' = "if ?m \<noteq> 0 \<and> (w < 0) \<noteq> (?m < 0) then fsub ?d 1 else ?d"
  let ?fl = "of_int \<lfloor>?d'\<rfloor> :: rat"
  obtain k where k: "round_double (of_int (\<lfloor>?d'\<rfloor> + 1)) = of_int k"
    using round_double_of_int_is_int by blast
  have "float_floor_div s w = 0 \<or> float_floor_div s w = ?fl \<or> float_floor_div s w = fadd ?fl 1"
    by (simp add: float_floor_div_def Let_def)
  moreover have "fadd ?fl 1 = of_int k" using k by (simp add: fadd_def)
  moreover have "(0::rat) = of_int 0" by simp
  ultimately show ?thesis by metis
qed

lemma float_floor_div_exact:
  assumes "0 \<le> s" "s < 2 ^ 53" "0 < w"
  shows "float_floor_div s (of_int w) = of_int \<lfloor>s / of_int w\<rfloor>"
proof -
  let ?w = "of_int w :: rat"
  let ?k = "\<lfloor>s / ?w\<rfloor>"
  have w: "0 < ?w" "1 \<le> ?w" using assms(3) by simp_all
  have m: "fmod s ?w = s - ?w * of_int ?k" using assms(1) w(1) by (rule fmod_nonneg)
  have rng: "0 \<le> fmod s ?w \<and> fmod s ?w < ?w"
    using floor_remainder_range [OF w(1), of s] by (simp add: m)
  have k0: "0 \<le> ?k" using assms(1) w(1) by simp
  have "?w * of_int ?k \<le> s" using rng by (simp add: m)
  then have "of_int (w * ?k) < (2::rat) ^ 53" using assms(2) by simp
  then have "of_int (w * ?k) < (of_int (2 ^ 53) :: rat)" by simp
  then have wk: "w * ?k < 2 ^ 53" by (simp only: of_int_less_iff)
  have "?k \<le> w * ?k" using k0 assms(3) by (simp add: mult_le_cancel_right1)
  then have kk: "?k < 2 ^ 53" using wk by (rule le_less_trans)
  have "0 \<le> w * ?k" using k0 assms(3) by simp
  then have "\<bar>w * ?k\<bar> < 2 ^ 53" using wk by simp
  then have r1: "round_double (of_int (w * ?k)) = of_int (w * ?k)" by (rule round_double_small_int)
  have "\<bar>?k\<bar> < 2 ^ 53" using k0 kk by simp
  then have r2: "round_double (of_int ?k) = of_int ?k" by (rule round_double_small_int)
  have s1: "fsub s (fmod s ?w) = ?w * of_int ?k" using r1 by (simp add: fsub_def m)
  have s2: "fdiv (?w * of_int ?k) ?w = of_int ?k" using r2 w(1) by (simp add: fdiv_def)
  have s3: "fsub (of_int ?k) (of_int \<lfloor>of_int ?k :: rat\<rfloor>) = 0"
    by (simp add: fsub_def round_double_def)
  have c: "\<not> (fmod s ?w \<noteq> 0 \<and> (?w < 0) \<noteq> (fmod s ?w < 0))" using rng w(1) by simp
  have d': "(if fmod s ?w \<noteq> 0 \<and> (?w < 0) \<noteq> (fmod s ?w < 0)
             then fsub (fdiv (fsub s (fmod s ?w)) ?w) 1
             else fdiv (fsub s (fmod s ?w)) ?w) = of_int ?k"
    using c by (simp only: if_False s1 s2)
  show ?thesis
    unfolding float_floor_div_def Let_def d' s3 by simp
qed

lemma timestamp_fields_floor:
  "timestamp_fields s =
     \<lparr>hours = \<lfloor>float_floor_div s 3600\<rfloor>,
      minutes = \<lfloor>float_floor_div (float_rem s 3600) 60\<rfloor>,
      secs = \<lfloor>float_rem s 60\<rfloor>,
      millis = \<lfloor>fmul (float_rem s 1) 1000\<rfloor>\<rparr>"
proof -
  obtain h where h: "float_floor_div s 3600 = of_int h"
    using float_floor_div_is_int by blast
  obtain m where m: "float_floor_div (float_rem s 3600) 60 = of_int m"
    using float_floor_div_is_int by blast
  have sec: "0 \<le> float_rem s 60" by (rule float_rem_nonneg) simp
  have "0 \<le> float_rem s 1" by (rule float_rem_nonneg) simp
  then have "0 \<le> float_rem s 1 * 1000" by simp
  then have ms: "0 \<le> fmul (float_rem s 1) 1000"
    unfolding fmul_def by (rule round_double_nonneg)
  show ?thesis
    unfolding timestamp_fields_def h m
    by (simp add: trunc_of_int trunc_nonneg [OF sec] trunc_nonneg [OF ms])
qed

lemma timestamp_fields_nonneg:
  assumes "0 \<le> s"
  shows "minutes (timestamp_fields s) = \<lfloor>rat_mod s 3600 / 60\<rfloor> \<and>
         secs (timestamp_fields s) = \<lfloor>rat_mod s 60\<rfloor> \<and>
         millis (timestamp_fields s) = \<lfloor>fmul (rat_mod s 1) 1000\<rfloor>"
proof -
  have r3600: "float_rem s 3600 = rat_mod s 3600"
    using float_rem_exact [OF assms, of 3600] by (simp add: rat_mod_def)
  have r60: "float_rem s 60 = rat_mod s 60"
    using float_rem_exact [OF assms, of 60] by (simp add: rat_mod_def)
  have r1: "float_rem s 1 = rat_mod s 1"
    using float_rem_exact [OF assms, of 1] by (simp add: rat_mod_def)
  have rng: "0 \<le> rat_mod s 3600 \<and> rat_mod s 3600 < 3600"
    using floor_remainder_range [of 3600 s] by (simp add: rat_mod_def)
  then have "rat_mod s 3600 < 2 ^ 53" by simp
  with rng have m: "float_floor_div (rat_mod s 3600) 60 = of_int \<lfloor>rat_mod s 3600 / 60\<rfloor>"
    using float_floor_div_exact [of "rat_mod s 3600" 60] by simp
  show ?thesis
    by (simp add: timestamp_fields_floor r3600 r60 r1 m)
qed

lemma timestamp_hours_exact:
  assumes "0 \<le> s" "s < 2 ^ 53"
  shows "hours (timestamp_fields s) = \<lfloor>s / 3600\<rfloor>"
proof -
  have h: "float_floor_div s 3600 = of_int \<lfloor>s / 3600\<rfloor>"
    using float_floor_div_exact [OF assms, of 3600] by simp
  show ?thesis
    by (simp add: timestamp_fields_floor h)
qed

subsection \<open>Resolving the inputs: list laws\<close>




subsection \<open>Reading JSON text\<close>

lemma skip_ws_Cons_length: "skip_ws s = d # ds \<Longrightarrow> length ds < length s"
  using length_dropWhile_le [of is_ws s] by (simp add: skip_ws_def)

lemma skip_ws_length: "length (skip_ws s) \<le> length s"
  by (simp add: skip_ws_def length_dropWhile_le)

termination parse_value
proof (relation "measures
    [\<lambda>x. case x of Inl s \<Rightarrow> length s | Inr (Inl s) \<Rightarrow> length s | Inr (Inr s) \<Rightarrow> length s,
     \<lambda>x. case x of Inl s \<Rightarrow> 0 | Inr (Inl s) \<Rightarrow> 1 | Inr (Inr s) \<Rightarrow> 0]", goal_cases)
  case 1
  then show ?case by simp
next
  case (2 s c cs d ds)
  then show ?case using skip_ws_Cons_length [of cs d ds] by simp
next
  case (3 s c cs d ds)
  then show ?case using skip_ws_length [of cs] by (auto simp del: skip_ws_def)
next
  case (4 s)
  then show ?case by simp
next
  case (5 s x v r d ds)
  then show ?case using skip_ws_Cons_length [of r d ds] skip_ws_length [of ds] by simp
next
  case (6 s x key r c cs)
  then show ?case using skip_ws_length [of cs] by simp
next
  case (7 s x key r c cs y v r' d ds q qs)
  then show ?case using skip_ws_Cons_length [of r' d ds] skip_ws_Cons_length [of ds q qs] by simp
qed

declare parse_value.simps [simp del] parse_elements.simps [simp del] parse_members.simps [simp del]

subsection \<open>Reading back what was written\<close>

subsection \<open>Strings read back\<close>

lemma hex_val_hex_digit: "d < 16 \<Longrightarrow> hex_val (hex_digit d) = Some d"
  by (auto simp: hex_val_def hex_digit_def Let_def)

lemma hex4_control:
  assumes "n < 32"
  shows "hex4 CHR ''0'' CHR ''0'' (hex_digit (n div 16)) (hex_digit (n mod 16)) = Some n"
proof -
  have a: "hex_val CHR ''0'' = Some 0" by (simp add: hex_val_def)
  have b: "hex_val (hex_digit (n div 16)) = Some (n div 16)"
    using assms by (intro hex_val_hex_digit) simp
  have c: "hex_val (hex_digit (n mod 16)) = Some (n mod 16)"
    by (intro hex_val_hex_digit) simp
  show ?thesis by (simp add: hex4_def a b c)
qed

lemma scanstring_escape_char:
  assumes "scanstring t = Some (s, rest)"
  shows "scanstring (escape_char c @ t) = Some (c # s, rest)"
proof -
  consider (special) "c \<in> {CHR 0x5C, CHR 0x22, CHR 0x08, CHR 0x0C, CHR 0x0A, CHR 0x0D, CHR 0x09}"
    | (control) "c \<notin> {CHR 0x5C, CHR 0x22, CHR 0x08, CHR 0x0C, CHR 0x0A, CHR 0x0D, CHR 0x09}"
        "of_char c < (0x20 :: nat)"
    | (plain) "c \<notin> {CHR 0x5C, CHR 0x22, CHR 0x08, CHR 0x0C, CHR 0x0A, CHR 0x0D, CHR 0x09}"
        "\<not> of_char c < (0x20 :: nat)"
    by blast
  then show ?thesis
  proof cases
    case special
    then show ?thesis using assms by (auto simp: escape_char_def unescape_def)
  next
    case control
    let ?n = "of_char c :: nat"
    have h: "hex4 CHR ''0'' CHR ''0'' (hex_digit (?n div 16)) (hex_digit (?n mod 16)) = Some ?n"
      using control(2) by (intro hex4_control) simp
    have u: "utf8 ?n = [c]" using control(2) by (simp add: utf8_def)
    have e: "escape_char c = [CHR 0x5C, CHR ''u'', CHR ''0'', CHR ''0'',
        hex_digit (?n div 16), hex_digit (?n mod 16)]"
      using control by (simp add: escape_char_def)
    show ?thesis using control(2) assms by (simp add: e h u)
  next
    case plain
    then show ?thesis using assms by (simp add: escape_char_def)
  qed
qed

lemma scanstring_escaped:
  "scanstring (concat (map escape_char s) @ CHR 0x22 # rest) = Some (s, rest)"
  by (induction s) (simp_all add: scanstring_escape_char)

lemma parse_value_string:
  "parse_value (encode_basestring s @ rest) = Some (JString s, rest)"
  by (simp add: encode_basestring_def parse_value.simps scanstring_escaped)

subsection \<open>Numbers read back\<close>

lemma terminated_digits:
  assumes "terminated rest"
  shows "takeWhile is_digit (t @ rest) = takeWhile is_digit t"
    and "dropWhile is_digit (t @ rest) = dropWhile is_digit t @ rest"
proof -
  have r: "takeWhile is_digit rest = [] \<and> dropWhile is_digit rest = rest"
    using assms by (cases rest) (auto simp: terminated_def is_digit_def)
  show "takeWhile is_digit (t @ rest) = takeWhile is_digit t"
    using r by (induction t) auto
  show "dropWhile is_digit (t @ rest) = dropWhile is_digit t @ rest"
    using r by (induction t) auto
qed

lemma match_fraction_append:
  assumes "terminated rest"
  shows "match_fraction (t @ rest) = (fst (match_fraction t), snd (match_fraction t) @ rest)"
proof (cases t)
  case Nil
  then show ?thesis using assms
    by (cases rest) (auto simp: match_fraction_def terminated_def)
next
  case (Cons c u)
  then show ?thesis
    by (simp add: match_fraction_def terminated_digits [OF assms])
qed

lemma match_exponent_append:
  assumes "terminated rest"
  shows "match_exponent (t @ rest) = (fst (match_exponent t), snd (match_exponent t) @ rest)"
proof (cases t)
  case Nil
  then show ?thesis using assms
    by (cases rest) (auto simp: match_exponent_def terminated_def)
next
  case t: (Cons c u)
  show ?thesis
  proof (cases u)
    case Nil
    have "takeWhile is_digit rest = []"
      using terminated_digits(1) [OF assms, of "[]"] by simp
    moreover have "\<And>d v. rest = d # v \<Longrightarrow> d \<noteq> CHR ''+'' \<and> d \<noteq> CHR ''-''"
      using assms by (auto simp: terminated_def)
    ultimately show ?thesis using t Nil assms
      by (cases rest) (auto simp: match_exponent_def Let_def terminated_def is_digit_def)
  next
    case (Cons d v)
    with t show ?thesis
      using terminated_digits [OF assms, of v] terminated_digits [OF assms, of "d # v"]
      by (auto simp: match_exponent_def Let_def)
  qed
qed

lemma match_integer_append:
  assumes "terminated rest" "match_integer t = Some (i, r)"
  shows "match_integer (t @ rest) = Some (i, r @ rest)"
proof (cases t)
  case Nil
  with assms(2) show ?thesis by (simp add: match_integer_def)
next
  case t: (Cons c u)
  show ?thesis
  proof (cases "c = CHR ''-''")
    case True
    show ?thesis
    proof (cases u)
      case Nil
      with t True assms(2) show ?thesis by (simp add: match_integer_def)
    next
      case (Cons d v)
      with t True assms(2) show ?thesis
        using terminated_digits [OF assms(1), of v] terminated_digits [OF assms(1), of "d # v"]
        by (auto simp: match_integer_def split: if_splits)
    qed
  next
    case False
    with t assms(2) show ?thesis
      using terminated_digits [OF assms(1), of u] terminated_digits [OF assms(1), of "c # u"]
      by (auto simp: match_integer_def split: if_splits)
  qed
qed

lemma scan_number_append:
  assumes "terminated rest" "scan_number t = Some (v, r)"
  shows "scan_number (t @ rest) = Some (v, r @ rest)"
proof -
  from assms(2) obtain i r0 where mi: "match_integer t = Some (i, r0)"
    by (auto simp: scan_number_def split: option.splits)
  obtain f r1 where mf: "match_fraction r0 = (f, r1)" by (cases "match_fraction r0")
  obtain e r2 where me: "match_exponent r1 = (e, r2)" by (cases "match_exponent r1")
  have a: "match_integer (t @ rest) = Some (i, r0 @ rest)"
    using assms(1) mi by (rule match_integer_append)
  have b: "match_fraction (r0 @ rest) = (f, r1 @ rest)"
    using match_fraction_append [OF assms(1), of r0] mf by simp
  have c: "match_exponent (r1 @ rest) = (e, r2 @ rest)"
    using match_exponent_append [OF assms(1), of r1] me by simp
  from assms(2) show ?thesis
    by (auto simp: scan_number_def mi mf me a b c split: if_splits)
qed

lemma match_integer_first:
  assumes "match_integer s = Some x"
  shows "\<exists>c cs. s = c # cs \<and> (c = CHR ''-'' \<or> is_digit c)"
proof (cases s)
  case Nil
  with assms show ?thesis by (simp add: match_integer_def)
next
  case (Cons c cs)
  with assms show ?thesis
    by (auto simp: match_integer_def is_digit_def split: if_splits list.splits)
qed

lemma scan_number_first:
  assumes "scan_number s = Some x"
  shows "\<exists>c cs. s = c # cs \<and> (c = CHR ''-'' \<or> is_digit c)"
proof -
  from assms obtain y where "match_integer s = Some y"
    by (auto simp: scan_number_def split: option.splits)
  then show ?thesis by (rule match_integer_first)
qed

lemma parse_value_number:
  assumes "scan_number s = Some x"
  shows "parse_value s = Some x"
proof -
  from scan_number_first [OF assms] obtain c cs where
    s: "s = c # cs" and c: "c = CHR ''-'' \<or> is_digit c" by blast
  from c have "c \<noteq> CHR 0x22 \<and> c \<noteq> CHR ''{'' \<and> c \<noteq> CHR ''['' \<and> c \<noteq> CHR ''n'' \<and>
      c \<noteq> CHR ''t'' \<and> c \<noteq> CHR ''f''"
    by (auto simp: is_digit_def)
  then show ?thesis
    using assms unfolding s by (subst parse_value.simps) auto
qed

lemma value_start_not_ws: "value_start c \<Longrightarrow> \<not> is_ws c"
  by (auto simp: value_start_def is_ws_def is_digit_def)

lemma value_start_not_close: "value_start c \<Longrightarrow> c \<noteq> CHR '']''"
  by (auto simp: value_start_def is_digit_def)

lemma skip_ws_start: "\<not> is_ws c \<Longrightarrow> skip_ws (c # t) = c # t"
  by (simp add: skip_ws_def)

lemma newline_indent_ws: "c \<in> set (newline_indent l) \<Longrightarrow> is_ws c"
  by (induction l) (auto simp: newline_indent_def nl_def is_ws_def)

lemma skip_ws_indent: "skip_ws (newline_indent l @ t) = skip_ws t"
  using newline_indent_ws [of _ l] by (simp add: skip_ws_def dropWhile_append2)

lemma skip_ws_space: "skip_ws (CHR '' '' # t) = skip_ws t"
  by (simp add: skip_ws_def is_ws_def)

lemma terminated_indent: "terminated (newline_indent l @ t)"
  by (simp add: terminated_def newline_indent_def nl_def)

lemma terminated_comma: "terminated (CHR '','' # t)"
  by (simp add: terminated_def)

lemma negzero_text: "scan_number ''-0.0'' = Some (JFloat NegZero, [])"
  by code_simp

lemma floatstr_scan:
  assumes "reads_back fr x" "x \<noteq> PosInf" "x \<noteq> NegInf" "x \<noteq> NaN"
  shows "scan_number (floatstr fr x) = Some (JFloat x, [])"
  using assms negzero_text by (cases x) (simp_all add: reads_back_def)

lemma parse_value_float:
  assumes "reads_back fr x" "terminated rest"
  shows "parse_value (floatstr fr x @ rest) = Some (JFloat x, rest)"
proof (cases "x = PosInf \<or> x = NegInf \<or> x = NaN")
  case False
  then have "scan_number (floatstr fr x) = Some (JFloat x, [])"
    using assms(1) by (intro floatstr_scan) auto
  then have "scan_number (floatstr fr x @ rest) = Some (JFloat x, [] @ rest)"
    using assms(2) by (intro scan_number_append)
  then show ?thesis by (simp add: parse_value_number)
next
  case True
  have a: "scan_number (''Infinity'' @ rest) = None"
    by (simp add: scan_number_def match_integer_def is_digit_def)
  have b: "scan_number (''-Infinity'' @ rest) = None"
    by (simp add: scan_number_def match_integer_def is_digit_def)
  have c: "scan_number (''NaN'' @ rest) = None"
    by (simp add: scan_number_def match_integer_def is_digit_def)
  from True show ?thesis
    using a b c by (auto simp: parse_value.simps)
qed

lemma floatstr_start:
  assumes "reads_back fr x"
  shows "\<exists>c t. floatstr fr x = c # t \<and> value_start c"
proof (cases "x = PosInf \<or> x = NegInf \<or> x = NaN")
  case False
  then have "scan_number (floatstr fr x) = Some (JFloat x, [])"
    using assms by (intro floatstr_scan) auto
  from scan_number_first [OF this] show ?thesis by (auto simp: value_start_def)
next
  case True
  then show ?thesis by (auto simp: value_start_def)
qed

lemma iterencode_start:
  assumes "plain fr v"
  shows "\<exists>c t. iterencode fr level v = c # t \<and> value_start c"
proof (cases v)
  case (JFloat x)
  with assms floatstr_start [of fr x] show ?thesis by simp
next
  case (JArray vs)
  then show ?thesis by (cases vs) (auto simp: value_start_def)
next
  case (JObject kvs)
  then show ?thesis by (cases kvs) (auto simp: value_start_def)
qed (use assms in \<open>auto simp: value_start_def encode_basestring_def\<close>)

lemma iterencode_list_start:
  assumes "vs \<noteq> []" "\<forall>v \<in> set vs. plain fr v"
  shows "\<exists>c t. iterencode_list fr level vs = c # t \<and> value_start c"
proof -
  from assms(1) obtain v ws where vs: "vs = v # ws" by (cases vs) auto
  with assms(2) have "plain fr v" by simp
  from iterencode_start [OF this, of level] obtain c t where
    "iterencode fr level v = c # t" "value_start c" by blast
  then show ?thesis unfolding vs by (cases ws) auto
qed

lemma iterencode_dict_start:
  assumes "kvs \<noteq> []"
  shows "\<exists>t. iterencode_dict fr level kvs = CHR 0x22 # t"
proof -
  from assms obtain k v ws where "kvs = (k, v) # ws" by (cases kvs) auto
  then show ?thesis by (cases ws) (auto simp: encode_basestring_def)
qed

lemma dict_of_pairs_distinct:
  assumes "distinct (map fst kvs)"
  shows "dict_of_pairs kvs = kvs"
proof -
  have set_new: "\<And>d k v. k \<notin> fst ` set d \<Longrightarrow> dict_set d k v = d @ [(k, v)]"
  proof -
    fix d :: "(string \<times> json) list" and k v
    show "k \<notin> fst ` set d \<Longrightarrow> dict_set d k v = d @ [(k, v)]"
      by (induction d) auto
  qed
  have "\<And>d. distinct (map fst (d @ kvs)) \<Longrightarrow> foldl (\<lambda>d (k, v). dict_set d k v) d kvs = d @ kvs"
    using assms
  proof (induction kvs)
    case Nil
    then show ?case by simp
  next
    case (Cons kv kvs)
    obtain k v where kv: "kv = (k, v)" by (cases kv)
    have "k \<notin> fst ` set d" using Cons.prems(1) kv by auto
    then have s: "dict_set d k v = d @ [(k, v)]" by (rule set_new)
    have "foldl (\<lambda>d (k, v). dict_set d k v) (d @ [(k, v)]) kvs = (d @ [(k, v)]) @ kvs"
      using Cons.prems by (intro Cons.IH) (simp_all add: kv)
    then show ?case by (simp add: kv s)
  qed
  from this [of "[]"] assms show ?thesis by (simp add: dict_of_pairs_def)
qed

lemma roundtrip:
  "plain fr v \<longrightarrow>
     (\<forall>rest. terminated rest \<longrightarrow> parse_value (iterencode fr level v @ rest) = Some (v, rest))"
  "vs \<noteq> [] \<and> (\<forall>v \<in> set vs. plain fr v) \<longrightarrow>
     (\<forall>n rest. parse_elements (iterencode_list fr level vs @ newline_indent n @ CHR '']'' # rest)
        = Some (vs, rest))"
  "kvs \<noteq> [] \<and> (\<forall>kv \<in> set kvs. plain fr (snd kv)) \<longrightarrow>
     (\<forall>n rest. parse_members (tl (iterencode_dict fr level kvs) @ newline_indent n @ CHR ''}'' # rest)
        = Some (kvs, rest))"
proof (induction fr level v and fr level vs and fr level kvs
    rule: iterencode_iterencode_list_iterencode_dict.induct)
  case (1 fr level)
  show ?case by simp
next
  case (2 fr level b)
  show ?case by simp
next
  case (3 fr level i)
  show ?case by simp
next
  case (4 fr level s)
  show ?case by (simp add: parse_value_string)
next
  case (5 fr level x)
  show ?case by (simp add: parse_value_float)
next
  case (6 fr level)
  show ?case by (simp add: parse_value.simps skip_ws_start is_ws_def)
next
  case (7 fr level v vs)
  show ?case
  proof (intro impI allI)
    fix rest
    assume pl: "plain fr (JArray (v # vs))"
    let ?L = "iterencode_list fr (Suc level) (v # vs)"
    from pl have all: "v # vs \<noteq> [] \<and> (\<forall>u \<in> set (v # vs). plain fr u)" by simp
    then obtain c t where ct: "?L = c # t" "value_start c"
      using iterencode_list_start [of "v # vs" fr "Suc level"] by blast
    from 7 all have "parse_elements (?L @ newline_indent level @ CHR '']'' # rest) = Some (v # vs, rest)"
      by simp
    then have ih: "parse_elements (c # t @ newline_indent level @ CHR '']'' # rest) = Some (v # vs, rest)"
      unfolding ct(1) by simp
    have sk: "skip_ws (newline_indent (Suc level) @ c # t @ newline_indent level @ CHR '']'' # rest)
        = c # t @ newline_indent level @ CHR '']'' # rest"
      using ct(2) by (simp add: skip_ws_indent skip_ws_start value_start_not_ws)
    have "iterencode fr level (JArray (v # vs)) @ rest =
        CHR ''['' # newline_indent (Suc level) @ ?L @ newline_indent level @ CHR '']'' # rest"
      by simp
    then have "iterencode fr level (JArray (v # vs)) @ rest =
        CHR ''['' # newline_indent (Suc level) @ c # t @ newline_indent level @ CHR '']'' # rest"
      unfolding ct(1) by simp
    then show "parse_value (iterencode fr level (JArray (v # vs)) @ rest) = Some (JArray (v # vs), rest)"
      using ct(2) by (simp add: parse_value.simps sk ih value_start_not_close)
  qed
next
  case (8 fr level)
  show ?case by (simp add: parse_value.simps skip_ws_start is_ws_def)
next
  case (9 fr level kv kvs)
  show ?case
  proof (intro impI allI)
    fix rest
    assume pl: "plain fr (JObject (kv # kvs))"
    let ?D = "iterencode_dict fr (Suc level) (kv # kvs)"
    from pl have all: "kv # kvs \<noteq> [] \<and> (\<forall>u \<in> set (kv # kvs). plain fr (snd u))" by simp
    from pl have dist: "distinct (map fst (kv # kvs))" by simp
    obtain t where t: "?D = CHR 0x22 # t"
      using iterencode_dict_start [of "kv # kvs" fr "Suc level"] by blast
    from 9 all have "parse_members (tl ?D @ newline_indent level @ CHR ''}'' # rest) = Some (kv # kvs, rest)"
      by simp
    then have ih: "parse_members (t @ newline_indent level @ CHR ''}'' # rest) = Some (kv # kvs, rest)"
      unfolding t by simp
    have sk: "skip_ws (newline_indent (Suc level) @ CHR 0x22 # t @ newline_indent level @ CHR ''}'' # rest)
        = CHR 0x22 # t @ newline_indent level @ CHR ''}'' # rest"
      by (simp add: skip_ws_indent skip_ws_start is_ws_def)
    have "iterencode fr level (JObject (kv # kvs)) @ rest =
        CHR ''{'' # newline_indent (Suc level) @ ?D @ newline_indent level @ CHR ''}'' # rest"
      by simp
    then have "iterencode fr level (JObject (kv # kvs)) @ rest =
        CHR ''{'' # newline_indent (Suc level) @ CHR 0x22 # t @ newline_indent level @ CHR ''}'' # rest"
      unfolding t by simp
    then show "parse_value (iterencode fr level (JObject (kv # kvs)) @ rest) = Some (JObject (kv # kvs), rest)"
      using dict_of_pairs_distinct [OF dist] by (simp add: parse_value.simps sk ih)
  qed
next
  case (10 fr level)
  show ?case by simp
next
  case (11 fr level v)
  show ?case
  proof (intro impI allI)
    fix n rest
    assume "[v] \<noteq> [] \<and> (\<forall>u \<in> set [v]. plain fr u)"
    then have pl: "plain fr v" by simp
    let ?R = "newline_indent n @ CHR '']'' # rest"
    obtain c t where ct: "iterencode fr level v = c # t"
      using iterencode_start [OF pl, of level] by blast
    have pv: "parse_value (iterencode fr level v @ ?R) = Some (v, ?R)"
      using 11 pl terminated_indent by simp
    have sk: "skip_ws ?R = CHR '']'' # rest"
      by (simp add: skip_ws_indent skip_ws_start is_ws_def)
    have len: "length ?R < length (iterencode fr level v @ ?R)" by (simp add: ct)
    show "parse_elements (iterencode_list fr level [v] @ ?R) = Some ([v], rest)"
      by (subst parse_elements.simps)
        (simp only: iterencode_list.simps pv option.case prod.case len if_True sk list.case, simp)
  qed
next
  case (12 fr level v w ws)
  show ?case
  proof (intro impI allI)
    fix n rest
    assume a: "v # w # ws \<noteq> [] \<and> (\<forall>u \<in> set (v # w # ws). plain fr u)"
    then have pl: "plain fr v" and all: "w # ws \<noteq> [] \<and> (\<forall>u \<in> set (w # ws). plain fr u)"
      by simp_all
    let ?C = "newline_indent n @ CHR '']'' # rest"
    let ?L = "iterencode_list fr level (w # ws)"
    let ?R = "CHR '','' # newline_indent level @ ?L @ ?C"
    obtain c t where ct: "iterencode fr level v = c # t"
      using iterencode_start [OF pl, of level] by blast
    obtain c' t' where ct': "?L = c' # t'" "value_start c'"
      using iterencode_list_start [of "w # ws" fr level] all by blast
    have pv: "parse_value (iterencode fr level v @ ?R) = Some (v, ?R)"
      using 12(1) pl terminated_comma by simp
    have ih: "parse_elements (?L @ ?C) = Some (w # ws, rest)"
      using 12(2) all by simp
    have sk1: "skip_ws ?R = ?R" by (simp add: skip_ws_start is_ws_def)
    have sk2: "skip_ws (newline_indent level @ ?L @ ?C) = ?L @ ?C"
      using ct'(2) by (simp add: skip_ws_indent ct'(1) skip_ws_start value_start_not_ws)
    have len: "length ?R < length (iterencode fr level v @ ?R)" by (simp add: ct)
    have shape: "iterencode_list fr level (v # w # ws) @ ?C = iterencode fr level v @ ?R" by simp
    show "parse_elements (iterencode_list fr level (v # w # ws) @ ?C) = Some (v # w # ws, rest)"
      unfolding shape
      by (subst parse_elements.simps)
        (simp only: pv option.case prod.case len if_True sk1 list.case, simp add: sk2 ih)
  qed
next
  case (13 fr level)
  show ?case by simp
next
  case (14 fr level k v)
  show ?case
  proof (intro impI allI)
    fix n rest
    assume "[(k, v)] \<noteq> [] \<and> (\<forall>u \<in> set [(k, v)]. plain fr (snd u))"
    then have pl: "plain fr v" by simp
    let ?C = "newline_indent n @ CHR ''}'' # rest"
    let ?V = "iterencode fr level v"
    let ?K = "concat (map escape_char k)"
    obtain c t where ct: "?V = c # t" "value_start c"
      using iterencode_start [OF pl, of level] by blast
    have pv: "parse_value (?V @ ?C) = Some (v, ?C)"
      using 14 pl terminated_indent by simp
    have shape: "tl (iterencode_dict fr level [(k, v)]) @ ?C =
        ?K @ CHR 0x22 # CHR '':'' # CHR '' '' # ?V @ ?C"
      by (simp add: encode_basestring_def)
    have ss: "scanstring (?K @ CHR 0x22 # CHR '':'' # CHR '' '' # ?V @ ?C) =
        Some (k, CHR '':'' # CHR '' '' # ?V @ ?C)"
      by (rule scanstring_escaped)
    have sk1: "skip_ws (CHR '':'' # CHR '' '' # ?V @ ?C) = CHR '':'' # CHR '' '' # ?V @ ?C"
      by (simp add: skip_ws_start is_ws_def)
    have sk2: "skip_ws (CHR '' '' # ?V @ ?C) = ?V @ ?C"
      using ct(2) by (simp add: skip_ws_space ct(1) skip_ws_start value_start_not_ws)
    have sk3: "skip_ws ?C = CHR ''}'' # rest"
      by (simp add: skip_ws_indent skip_ws_start is_ws_def)
    have len1: "length (CHR '' '' # ?V @ ?C) < length (?K @ CHR 0x22 # CHR '':'' # CHR '' '' # ?V @ ?C)"
      by simp
    have len2: "length ?C < length (?K @ CHR 0x22 # CHR '':'' # CHR '' '' # ?V @ ?C)"
      by simp
    show "parse_members (tl (iterencode_dict fr level [(k, v)]) @ ?C) = Some ([(k, v)], rest)"
      unfolding shape
      by (subst parse_members.simps)
        (simp only: ss option.case prod.case sk1 list.case simp_thms if_True len1 sk2 pv len2 sk3)
  qed
next
  case (15 fr level k v kv kvs)
  show ?case
  proof (intro impI allI)
    fix n rest
    assume a: "(k, v) # kv # kvs \<noteq> [] \<and> (\<forall>u \<in> set ((k, v) # kv # kvs). plain fr (snd u))"
    then have pl: "plain fr v" and all: "kv # kvs \<noteq> [] \<and> (\<forall>u \<in> set (kv # kvs). plain fr (snd u))"
      by simp_all
    let ?C = "newline_indent n @ CHR ''}'' # rest"
    let ?V = "iterencode fr level v"
    let ?K = "concat (map escape_char k)"
    let ?D = "iterencode_dict fr level (kv # kvs)"
    obtain c t where ct: "?V = c # t" "value_start c"
      using iterencode_start [OF pl, of level] by blast
    obtain d where d: "?D = CHR 0x22 # d"
      using iterencode_dict_start [of "kv # kvs" fr level] by blast
    let ?R = "CHR '','' # newline_indent level @ CHR 0x22 # d @ ?C"
    have pv: "parse_value (?V @ ?R) = Some (v, ?R)"
      using 15(1) pl terminated_comma by simp
    have "parse_members (tl ?D @ ?C) = Some (kv # kvs, rest)"
      using 15(2) all by simp
    then have ih: "parse_members (d @ ?C) = Some (kv # kvs, rest)" by (simp add: d)
    have shape: "tl (iterencode_dict fr level ((k, v) # kv # kvs)) @ ?C =
        ?K @ CHR 0x22 # CHR '':'' # CHR '' '' # ?V @ ?R"
      by (simp add: encode_basestring_def d)
    have ss: "scanstring (?K @ CHR 0x22 # CHR '':'' # CHR '' '' # ?V @ ?R) =
        Some (k, CHR '':'' # CHR '' '' # ?V @ ?R)"
      by (rule scanstring_escaped)
    have sk1: "skip_ws (CHR '':'' # CHR '' '' # ?V @ ?R) = CHR '':'' # CHR '' '' # ?V @ ?R"
      by (simp add: skip_ws_start is_ws_def)
    have sk2: "skip_ws (CHR '' '' # ?V @ ?R) = ?V @ ?R"
      using ct(2) by (simp add: skip_ws_space ct(1) skip_ws_start value_start_not_ws)
    have sk3: "skip_ws ?R = ?R" by (simp add: skip_ws_start is_ws_def)
    have sk4: "skip_ws (newline_indent level @ CHR 0x22 # d @ ?C) = CHR 0x22 # d @ ?C"
      by (simp add: skip_ws_indent skip_ws_start is_ws_def)
    have len1: "length (CHR '' '' # ?V @ ?R) < length (?K @ CHR 0x22 # CHR '':'' # CHR '' '' # ?V @ ?R)"
      by simp
    have len2: "length ?R < length (?K @ CHR 0x22 # CHR '':'' # CHR '' '' # ?V @ ?R)"
      by simp
    show "parse_members (tl (iterencode_dict fr level ((k, v) # kv # kvs)) @ ?C) = Some ((k, v) # kv # kvs, rest)"
      unfolding shape
      by (subst parse_members.simps)
        (simp only: ss option.case prod.case sk1 list.case simp_thms if_True len1 sk2 pv len2 sk3,
         simp add: sk4 ih)
  qed
qed

lemma json_loads_dumps:
  assumes "plain fr v"
  shows "json_loads (json_dumps fr v) = Some v"
proof -
  obtain c t where ct: "iterencode fr 0 v = c # t" "value_start c"
    using iterencode_start [OF assms, of 0] by blast
  have t: "terminated []" by (simp add: terminated_def)
  have "parse_value (iterencode fr 0 v @ []) = Some (v, [])"
    using roundtrip(1) [of fr v 0] assms t by blast
  then have pv: "parse_value (c # t) = Some (v, [])" by (simp add: ct(1))
  have sk: "skip_ws (c # t) = c # t"
    using ct(2) by (simp add: skip_ws_start value_start_not_ws)
  have e: "skip_ws [] = []" by (simp add: skip_ws_def)
  show ?thesis
    by (simp add: json_loads_def json_dumps_def ct(1) sk pv e)
qed

subsection \<open>Properties\<close>

text \<open>
  C1, as the code has it. For the transcript with the sentences \<open>Hello\<close> (0.0 to 1.5)
  and \<open>World\<close> (1.5 to 3.0), \<open>format_output\<close> with \<open>srt\<close> returns the two blocks
  (counter, time range, text) separated by one blank line, ending with a single
  newline after \<open>World\<close>: \<open>join\<close> puts a newline between the lines and none after the
  last, empty one. The string of the claim, with a second newline at the end, is not
  what is returned.
\<close>

theorem srt_two_sentences:
  "format_output fr
     \<lparr>full_text = t,
      sentences = [\<lparr>s_text = ''Hello'', s_start = Num 0, s_end = Num (3 / 2)\<rparr>,
                   \<lparr>s_text = ''World'', s_start = Num (3 / 2), s_end = Num 3\<rparr>]\<rparr>
     ''srt'' =
   Inr (''1'' @ nl @ ''00:00:00,000 --> 00:00:01,500'' @ nl @ ''Hello'' @ nl @ nl @
        ''2'' @ nl @ ''00:00:01,500 --> 00:00:03,000'' @ nl @ ''World'' @ nl)"
proof -
  have t0: "render_timestamp (timestamp_fields 0) ''srt'' = ''00:00:00,000''" by code_simp
  have t1: "render_timestamp (timestamp_fields (3 / 2)) ''srt'' = ''00:00:01,500''" by code_simp
  have t2: "render_timestamp (timestamp_fields 3) ''srt'' = ''00:00:03,000''" by code_simp
  have n1: "str_nat (Suc 0) = ''1''" by code_simp
  have n2: "str_nat (Suc (Suc 0)) = ''2''" by code_simp
  show ?thesis
    by (simp add: format_output_def t0 t1 t2 n1 n2)
qed

theorem srt_two_sentences_counterexample:
  "format_output (\<lambda>q. [])
     \<lparr>full_text = [],
      sentences = [\<lparr>s_text = ''Hello'', s_start = Num 0, s_end = Num (3 / 2)\<rparr>,
                   \<lparr>s_text = ''World'', s_start = Num (3 / 2), s_end = Num 3\<rparr>]\<rparr>
     ''srt'' \<noteq>
   Inr (''1'' @ nl @ ''00:00:00,000 --> 00:00:01,500'' @ nl @ ''Hello'' @ nl @ nl @
        ''2'' @ nl @ ''00:00:01,500 --> 00:00:03,000'' @ nl @ ''World'' @ nl @ nl)"
proof -
  have t0: "render_timestamp (timestamp_fields 0) ''srt'' = ''00:00:00,000''" by code_simp
  have t1: "render_timestamp (timestamp_fields (3 / 2)) ''srt'' = ''00:00:01,500''" by code_simp
  have t2: "render_timestamp (timestamp_fields 3) ''srt'' = ''00:00:03,000''" by code_simp
  have n1: "str_nat (Suc 0) = ''1''" by code_simp
  have n2: "str_nat (Suc (Suc 0)) = ''2''" by code_simp
  show ?thesis
    by (simp add: format_output_def t0 t1 t2 n1 n2 nl_def)
qed

text \<open>
  C2. For inputs that pass validation and a model that loaded: an input for which the
  model raises makes \<open>transcribe\<close> return \<open>False\<close>, with its diagnostics printed unless
  quiet, no file written and nothing on the standard output. When the run ends with an
  exit status, the model was called for every input in order, the status is 0 exactly
  when every input succeeded (and 1 otherwise), and each input that succeeded has its
  formatted transcript in one new file, at a path that did not exist before, whose
  path was printed. When the run ends with an uncaught exception instead, it was
  raised at an input that the model had transcribed, by formatting or writing, never
  by a transcription failure.
\<close>

theorem transcription_failure_is_isolated:
  assumes "passes_validation e w inputs output" and "from_pretrained e = Inr model"
  shows "(\<forall>p out w0. \<not> succeeded model p \<longrightarrow>
            fst (transcribe e model w0 p out fmt quiet) = Inr False \<and>
            files (snd (transcribe e model w0 p out fmt quiet)) = files w0 \<and>
            stdout (snd (transcribe e model w0 p out fmt quiet)) = stdout w0 \<and>
            stderr (snd (transcribe e model w0 p out fmt quiet)) =
              stderr w0 @ (if quiet then [] else diagnostics model p)) \<and>
         (\<forall>c w'. main e w inputs output fmt quiet = (Exit c, w') \<longrightarrow>
            transcribed w' = transcribed w @ map str_path (expand_paths e inputs) \<and>
            (c = 0 \<longleftrightarrow> list_all (succeeded model) (expand_paths e inputs)) \<and>
            (c = 0 \<or> c = 1) \<and>
            stderr w' = stderr (download_notice e w quiet) @
              (if quiet then [] else concat (map (diagnostics model) (expand_paths e inputs))) \<and>
            (\<exists>new. files w' = rev new @ files w \<and>
               list_all2 (written_for e model fmt)
                 (filter (succeeded model) (expand_paths e inputs)) new \<and>
               stdout w' = stdout w @ map (\<lambda>en. str_path (fst en)) new \<and>
               distinct (map fst new) \<and>
               (\<forall>en \<in> set new. \<not> path_exists (files w) (fst en)))) \<and>
         (\<forall>err w'. main e w inputs output fmt quiet = (Uncaught err, w') \<longrightarrow>
            (\<exists>pre p rest s w1. expand_paths e inputs = pre @ p # rest \<and>
               process_inputs e model output fmt quiet True (download_notice e w quiet) pre = (Inr s, w1) \<and>
               succeeded model p \<and> crashes_at e model output fmt (files w1) p err))"
proof (intro conjI allI impI)
  fix p out w0
  assume "\<not> succeeded model p"
  then obtain msg where msg: "model (str_path p) = Raised msg"
    by (cases "model (str_path p)") (auto simp: succeeded_def)
  have t: "transcribe e model w0 p out fmt quiet =
     (Inr False, w0\<lparr>stderr := stderr w0 @ (if quiet then [] else diagnostics model p),
                    transcribed := transcribed w0 @ [str_path p]\<rparr>)"
    using msg by (simp add: transcribe_raised [where model = model])
  show "fst (transcribe e model w0 p out fmt quiet) = Inr False" by (simp add: t)
  show "files (snd (transcribe e model w0 p out fmt quiet)) = files w0" by (simp add: t)
  show "stdout (snd (transcribe e model w0 p out fmt quiet)) = stdout w0" by (simp add: t)
  show "stderr (snd (transcribe e model w0 p out fmt quiet)) =
      stderr w0 @ (if quiet then [] else diagnostics model p)" by (simp add: t)
next
  fix c w'
  assume m: "main e w inputs output fmt quiet = (Exit c, w')"
  let ?ps = "expand_paths e inputs"
  let ?w1 = "download_notice e w quiet"
  obtain res w2 where run: "process_inputs e model output fmt quiet True ?w1 ?ps = (res, w2)"
    by (cases "process_inputs e model output fmt quiet True ?w1 ?ps")
  from m run main_validated [OF assms, of fmt quiet]
  obtain b where b: "res = Inr b" "c = (if b then 0 else 1)" "w2 = w'"
    by (cases res) auto
  have same: "files ?w1 = files w" "stdout ?w1 = stdout w" "transcribed ?w1 = transcribed w"
    by (simp_all add: download_notice_def)
  note li = process_inputs_Inr [OF run [unfolded b(1) b(3)]]
  show "transcribed w' = transcribed w @ map str_path ?ps" using li same by simp
  show "c = 0 \<longleftrightarrow> list_all (succeeded model) ?ps" using li b(2) by simp
  show "c = 0 \<or> c = 1" using b(2) by simp
  show "stderr w' = stderr ?w1 @ (if quiet then [] else concat (map (diagnostics model) ?ps))"
    using li by blast
  show "\<exists>new. files w' = rev new @ files w \<and>
      list_all2 (written_for e model fmt) (filter (succeeded model) ?ps) new \<and>
      stdout w' = stdout w @ map (\<lambda>en. str_path (fst en)) new \<and>
      distinct (map fst new) \<and> (\<forall>en \<in> set new. \<not> path_exists (files w) (fst en))"
    using li unfolding same by blast
next
  fix err w'
  assume m: "main e w inputs output fmt quiet = (Uncaught err, w')"
  let ?ps = "expand_paths e inputs"
  let ?w1 = "download_notice e w quiet"
  obtain res w2 where run: "process_inputs e model output fmt quiet True ?w1 ?ps = (res, w2)"
    by (cases "process_inputs e model output fmt quiet True ?w1 ?ps")
  from m run main_validated [OF assms, of fmt quiet]
  have "res = Inl err" by (cases res) auto
  with run have "process_inputs e model output fmt quiet True ?w1 ?ps = (Inl err, w2)" by simp
  from process_inputs_Inl [OF this] obtain pre p rest s w1 where
    "?ps = pre @ p # rest"
    "process_inputs e model output fmt quiet True ?w1 pre = (Inr s, w1)"
    "crashes_at e model output fmt (files w1) p err" by blast
  moreover from this(3) have "succeeded model p" by (auto simp: crashes_at_def succeeded_def)
  ultimately show "\<exists>pre p rest s w1. ?ps = pre @ p # rest \<and>
      process_inputs e model output fmt quiet True ?w1 pre = (Inr s, w1) \<and>
      succeeded model p \<and> crashes_at e model output fmt (files w1) p err"
    by blast
qed

theorem transcription_failure_is_isolated_witness:
  "passes_validation
     \<lparr>glob = (\<lambda>p. [''c.mp3'', ''a.mp3'', ''b.mp3'']), cwd = Path ''/'' [''d''], model_cached = True,
      from_pretrained = Inr (\<lambda>s. if s = ''/d/b.mp3'' then Raised ''bad audio''
                                   else Returned \<lparr>full_text = ''Hello'', sentences = []\<rparr>),
      float_repr = (\<lambda>q. [])\<rparr>
     \<lparr>files = [(Path ''/'' [''d''], Dir True), (Path ''/'' [''d'', ''a.mp3''], File []),
               (Path ''/'' [''d'', ''b.mp3''], File []), (Path ''/'' [''d'', ''c.mp3''], File [])],
      stdout = [], stderr = [], transcribed = []\<rparr>
     [''*.mp3''] None \<and>
   main
     \<lparr>glob = (\<lambda>p. [''c.mp3'', ''a.mp3'', ''b.mp3'']), cwd = Path ''/'' [''d''], model_cached = True,
      from_pretrained = Inr (\<lambda>s. if s = ''/d/b.mp3'' then Raised ''bad audio''
                                   else Returned \<lparr>full_text = ''Hello'', sentences = []\<rparr>),
      float_repr = (\<lambda>q. [])\<rparr>
     \<lparr>files = [(Path ''/'' [''d''], Dir True), (Path ''/'' [''d'', ''a.mp3''], File []),
               (Path ''/'' [''d'', ''b.mp3''], File []), (Path ''/'' [''d'', ''c.mp3''], File [])],
      stdout = [], stderr = [], transcribed = []\<rparr>
     [''*.mp3''] None ''txt'' False =
   (Exit 1,
    \<lparr>files = [(Path ''/'' [''d'', ''c.txt''], File ''Hello''), (Path ''/'' [''d'', ''a.txt''], File ''Hello''),
              (Path ''/'' [''d''], Dir True), (Path ''/'' [''d'', ''a.mp3''], File []),
              (Path ''/'' [''d'', ''b.mp3''], File []), (Path ''/'' [''d'', ''c.mp3''], File [])],
     stdout = [''/d/a.txt'', ''/d/c.txt''],
     stderr = [''Processing a.mp3...'', ''Processing b.mp3...'',
               ''Error: Transcription failed for b.mp3: bad audio'', ''Processing c.mp3...''],
     transcribed = [''/d/a.mp3'', ''/d/b.mp3'', ''/d/c.mp3'']\<rparr>) \<and>
   \<not> list_all
       (succeeded (\<lambda>s. if s = ''/d/b.mp3'' then Raised ''bad audio''
                        else Returned \<lparr>full_text = ''Hello'', sentences = []\<rparr>))
       [Path ''/'' [''d'', ''a.mp3''], Path ''/'' [''d'', ''b.mp3''], Path ''/'' [''d'', ''c.mp3'']]"
proof -
  let ?m = "\<lambda>s. if s = ''/d/b.mp3'' then Raised ''bad audio''
                 else Returned \<lparr>full_text = ''Hello'', sentences = []\<rparr>"
  let ?e = "\<lparr>glob = (\<lambda>p. [''c.mp3'', ''a.mp3'', ''b.mp3'']), cwd = Path ''/'' [''d''], model_cached = True,
      from_pretrained = Inr ?m, float_repr = (\<lambda>q. [])\<rparr>"
  let ?w = "\<lparr>files = [(Path ''/'' [''d''], Dir True), (Path ''/'' [''d'', ''a.mp3''], File []),
               (Path ''/'' [''d'', ''b.mp3''], File []), (Path ''/'' [''d'', ''c.mp3''], File [])],
      stdout = [], stderr = [], transcribed = []\<rparr>"
  let ?w' = "\<lparr>files = [(Path ''/'' [''d'', ''c.txt''], File ''Hello''), (Path ''/'' [''d'', ''a.txt''], File ''Hello''),
              (Path ''/'' [''d''], Dir True), (Path ''/'' [''d'', ''a.mp3''], File []),
              (Path ''/'' [''d'', ''b.mp3''], File []), (Path ''/'' [''d'', ''c.mp3''], File [])],
     stdout = [''/d/a.txt'', ''/d/c.txt''],
     stderr = [''Processing a.mp3...'', ''Processing b.mp3...'',
               ''Error: Transcription failed for b.mp3: bad audio'', ''Processing c.mp3...''],
     transcribed = [''/d/a.mp3'', ''/d/b.mp3'', ''/d/c.mp3'']\<rparr>"
  have pv: "passes_validation ?e ?w [''*.mp3''] None" by code_simp
  have fp: "from_pretrained ?e = Inr ?m" by simp
  have ex: "expand_paths ?e [''*.mp3''] =
      [Path ''/'' [''d'', ''a.mp3''], Path ''/'' [''d'', ''b.mp3''], Path ''/'' [''d'', ''c.mp3'']]"
    by code_simp
  have m: "main ?e ?w [''*.mp3''] None ''txt'' False = (Exit 1, ?w')" by code_simp
  have "(1::nat) = 0 \<longleftrightarrow> list_all (succeeded ?m) (expand_paths ?e [''*.mp3''])"
    using transcription_failure_is_isolated [OF pv fp, of "''txt''" False] m by blast
  then have "\<not> list_all (succeeded ?m) (expand_paths ?e [''*.mp3''])" by simp
  with pv m show ?thesis unfolding ex by blast
qed



text \<open>
  C4, as the code has it. \<open>format_timestamp\<close> on a finite float \<open>s\<close> computes with the
  float operators \<open>//\<close>, \<open>%\<close> and \<open>*\<close>. For \<open>0 \<le> s\<close> the operator \<open>%\<close> is exact: the minutes
  are \<open>floor((s mod 3600) / 60)\<close>, the seconds \<open>floor(s mod 60)\<close>, and the milliseconds the
  floor of the float product \<open>(s mod 1) * 1000\<close>, which is the float nearest to the exact
  product. For \<open>0 \<le> s < 2^53\<close> the operator \<open>//\<close> is exact as well: the hours are
  \<open>floor(s / 3600)\<close>. For every finite \<open>s\<close> the fields are printed with two, two, two and
  three digits, padded with zeros, with a comma before the milliseconds for \<open>srt\<close> and a
  period for \<open>vtt\<close>. The float written \<open>3725.4321\<close> gives \<open>01:02:05,432\<close> and
  \<open>01:02:05.432\<close>.
\<close>

theorem timestamp_decomposition:
  "(0 \<le> s \<and> s < 2 ^ 53 \<longrightarrow> hours (timestamp_fields s) = \<lfloor>s / 3600\<rfloor>) \<and>
   (0 \<le> s \<longrightarrow>
      minutes (timestamp_fields s) = \<lfloor>rat_mod s 3600 / 60\<rfloor> \<and>
      secs (timestamp_fields s) = \<lfloor>rat_mod s 60\<rfloor> \<and>
      millis (timestamp_fields s) = \<lfloor>fmul (rat_mod s 1) 1000\<rfloor>) \<and>
   format_timestamp (Num s) ''srt'' =
     Inr (format_0d 2 (hours (timestamp_fields s)) @ '':'' @
          format_0d 2 (minutes (timestamp_fields s)) @ '':'' @
          format_0d 2 (secs (timestamp_fields s)) @ '','' @
          format_0d 3 (millis (timestamp_fields s))) \<and>
   format_timestamp (Num s) ''vtt'' =
     Inr (format_0d 2 (hours (timestamp_fields s)) @ '':'' @
          format_0d 2 (minutes (timestamp_fields s)) @ '':'' @
          format_0d 2 (secs (timestamp_fields s)) @ ''.'' @
          format_0d 3 (millis (timestamp_fields s))) \<and>
   format_timestamp (Num (round_double (37254321 / 10000))) ''srt'' = Inr ''01:02:05,432'' \<and>
   format_timestamp (Num (round_double (37254321 / 10000))) ''vtt'' = Inr ''01:02:05.432''"
proof -
  have a: "format_timestamp (Num (round_double (37254321 / 10000))) ''srt'' = Inr ''01:02:05,432''"
    by code_simp
  have b: "format_timestamp (Num (round_double (37254321 / 10000))) ''vtt'' = Inr ''01:02:05.432''"
    by code_simp
  have c: "format_timestamp (Num s) ''srt'' =
     Inr (format_0d 2 (hours (timestamp_fields s)) @ '':'' @
          format_0d 2 (minutes (timestamp_fields s)) @ '':'' @
          format_0d 2 (secs (timestamp_fields s)) @ '','' @
          format_0d 3 (millis (timestamp_fields s)))"
    by (simp add: render_timestamp_def)
  have d: "format_timestamp (Num s) ''vtt'' =
     Inr (format_0d 2 (hours (timestamp_fields s)) @ '':'' @
          format_0d 2 (minutes (timestamp_fields s)) @ '':'' @
          format_0d 2 (secs (timestamp_fields s)) @ ''.'' @
          format_0d 3 (millis (timestamp_fields s)))"
    by (simp add: render_timestamp_def)
  show ?thesis
    using timestamp_hours_exact [of s] timestamp_fields_nonneg [of s] a b c d by blast
qed

theorem timestamp_decomposition_witness:
  "0 \<le> round_double (37254321 / 10000) \<and> round_double (37254321 / 10000) < 2 ^ 53 \<and>
   round_double (37254321 / 10000) = 2048077956219981 / 549755813888 \<and>
   hours (timestamp_fields (round_double (37254321 / 10000))) = 1 \<and>
   minutes (timestamp_fields (round_double (37254321 / 10000))) = 2 \<and>
   secs (timestamp_fields (round_double (37254321 / 10000))) = 5 \<and>
   millis (timestamp_fields (round_double (37254321 / 10000))) = 432"
proof -
  let ?x = "round_double (37254321 / 10000)"
  have x: "?x = 2048077956219981 / 549755813888" by code_simp
  have r: "0 \<le> ?x \<and> ?x < 2 ^ 53" unfolding x by simp
  have h: "\<lfloor>?x / 3600\<rfloor> = 1" unfolding x by code_simp
  have m: "\<lfloor>rat_mod ?x 3600 / 60\<rfloor> = 2" unfolding x by code_simp
  have s: "\<lfloor>rat_mod ?x 60\<rfloor> = 5" unfolding x by code_simp
  have ms: "\<lfloor>fmul (rat_mod ?x 1) 1000\<rfloor> = 432" unfolding x by code_simp
  have "hours (timestamp_fields ?x) = \<lfloor>?x / 3600\<rfloor> \<and>
      minutes (timestamp_fields ?x) = \<lfloor>rat_mod ?x 3600 / 60\<rfloor> \<and>
      secs (timestamp_fields ?x) = \<lfloor>rat_mod ?x 60\<rfloor> \<and>
      millis (timestamp_fields ?x) = \<lfloor>fmul (rat_mod ?x 1) 1000\<rfloor>"
    using timestamp_decomposition [of ?x] r by blast
  then have "hours (timestamp_fields ?x) = 1 \<and> minutes (timestamp_fields ?x) = 2 \<and>
      secs (timestamp_fields ?x) = 5 \<and> millis (timestamp_fields ?x) = 432"
    unfolding h m s ms .
  with r x show ?thesis by blast
qed

text \<open>
  The decomposition of the claim, for every seconds value and on exact numbers, is not
  what the code computes. At the float written \<open>-1e-20\<close> the operator \<open>%\<close> adds the divisor
  to the remainder and the sum rounds to the divisor itself: the minutes are \<open>60\<close>, the
  seconds \<open>60\<close> and the milliseconds \<open>1000\<close>, where the formulas give \<open>59\<close>, \<open>59\<close> and
  \<open>999\<close>, and the text is \<open>-1:60:60,1000\<close>. At the float \<open>1e20\<close> the quotient of \<open>//\<close> is
  rounded: the hours are one less than \<open>floor(s / 3600)\<close>. At the float written \<open>0.009\<close>
  the product \<open>(s mod 1) * 1000\<close> rounds up to \<open>9.0\<close>: the milliseconds are \<open>9\<close>, where the
  exact product has the floor \<open>8\<close>.
\<close>

theorem timestamp_decomposition_counterexample:
  "round_double (- 1 / 10 ^ 20) = - 6646139978924579 / 2 ^ 119 \<and>
   timestamp_fields (- 6646139978924579 / 2 ^ 119) =
     \<lparr>hours = - 1, minutes = 60, secs = 60, millis = 1000\<rparr> \<and>
   \<lfloor>rat_mod (- 6646139978924579 / 2 ^ 119) 3600 / 60\<rfloor> = 59 \<and>
   \<lfloor>rat_mod (- 6646139978924579 / 2 ^ 119) 60\<rfloor> = 59 \<and>
   \<lfloor>rat_mod (- 6646139978924579 / 2 ^ 119) 1 * 1000\<rfloor> = 999 \<and>
   format_timestamp (Num (- 6646139978924579 / 2 ^ 119)) ''srt'' = Inr ''-1:60:60,1000'' \<and>
   round_double (10 ^ 20) = 10 ^ 20 \<and>
   hours (timestamp_fields (10 ^ 20)) = 27777777777777776 \<and>
   \<lfloor>(10 ^ 20 :: rat) / 3600\<rfloor> = 27777777777777777 \<and>
   round_double (9 / 1000) = 5188146770730811 / 2 ^ 59 \<and>
   millis (timestamp_fields (5188146770730811 / 2 ^ 59)) = 9 \<and>
   \<lfloor>rat_mod (5188146770730811 / 2 ^ 59) 1 * 1000\<rfloor> = 8"
proof -
  have a1: "round_double (- 1 / 10 ^ 20) = - 6646139978924579 / 2 ^ 119" by code_simp
  have a2: "timestamp_fields (- 6646139978924579 / 2 ^ 119) =
      \<lparr>hours = - 1, minutes = 60, secs = 60, millis = 1000\<rparr>" by code_simp
  have a3: "\<lfloor>rat_mod (- 6646139978924579 / 2 ^ 119) 3600 / 60\<rfloor> = 59" by code_simp
  have a4: "\<lfloor>rat_mod (- 6646139978924579 / 2 ^ 119) 60\<rfloor> = 59" by code_simp
  have a5: "\<lfloor>rat_mod (- 6646139978924579 / 2 ^ 119) 1 * 1000\<rfloor> = 999" by code_simp
  have a6: "format_timestamp (Num (- 6646139978924579 / 2 ^ 119)) ''srt'' = Inr ''-1:60:60,1000''"
    by code_simp
  have b1: "round_double (10 ^ 20) = 10 ^ 20" by code_simp
  have b2: "hours (timestamp_fields (10 ^ 20)) = 27777777777777776" by code_simp
  have b3: "\<lfloor>(10 ^ 20 :: rat) / 3600\<rfloor> = 27777777777777777" by code_simp
  have c1: "round_double (9 / 1000) = 5188146770730811 / 2 ^ 59" by code_simp
  have c2: "millis (timestamp_fields (5188146770730811 / 2 ^ 59)) = 9" by code_simp
  have c3: "\<lfloor>rat_mod (5188146770730811 / 2 ^ 59) 1 * 1000\<rfloor> = 8" by code_simp
  from a1 a2 a3 a4 a5 a6 b1 b2 b3 c1 c2 c3 show ?thesis by blast
qed





text \<open>
  C7. For a transcript whose float fields have a text that reads back (every float
  of Python has): \<open>format_output\<close> with \<open>json\<close> returns a text that \<open>json.loads\<close> reads as
  an object with exactly the two fields \<open>text\<close> and \<open>sentences\<close>, the first the full text,
  the second the list, in the order of the source and as long, of the objects with the
  fields \<open>text\<close>, \<open>start\<close> and \<open>end\<close> of each sentence.
\<close>

theorem json_round_trip:
  assumes "\<forall>s \<in> set (sentences r). reads_back fr (s_start s) \<and> reads_back fr (s_end s)"
  shows "\<exists>out. format_output fr r ''json'' = Inr out \<and>
           json_loads out =
             Some (JObject
               [(''text'', JString (full_text r)),
                (''sentences'',
                 JArray (map (\<lambda>s. JObject [(''text'', JString (s_text s)),
                                              (''start'', JFloat (s_start s)),
                                              (''end'', JFloat (s_end s))])
                           (sentences r)))])"
proof -
  have "plain fr (transcript_json r)"
    using assms by (auto simp: transcript_json_def sentence_json_def)
  then have "json_loads (json_dumps fr (transcript_json r)) = Some (transcript_json r)"
    by (rule json_loads_dumps)
  moreover have "transcript_json r =
      JObject
        [(''text'', JString (full_text r)),
         (''sentences'',
          JArray (map (\<lambda>s. JObject [(''text'', JString (s_text s)),
                                       (''start'', JFloat (s_start s)),
                                       (''end'', JFloat (s_end s))])
                    (sentences r)))]"
    by (simp add: transcript_json_def sentence_json_def [abs_def])
  ultimately show ?thesis by (simp add: format_output_def)
qed

theorem json_round_trip_witness:
  "reads_back (\<lambda>q. if q = 0 then ''0.0'' else if q = 3 / 2 then ''1.5'' else ''3.0'') (Num 0) \<and>
   reads_back (\<lambda>q. if q = 0 then ''0.0'' else if q = 3 / 2 then ''1.5'' else ''3.0'') (Num (3 / 2)) \<and>
   reads_back (\<lambda>q. if q = 0 then ''0.0'' else if q = 3 / 2 then ''1.5'' else ''3.0'') (Num 3) \<and>
   (\<exists>out. format_output (\<lambda>q. if q = 0 then ''0.0'' else if q = 3 / 2 then ''1.5'' else ''3.0'')
            \<lparr>full_text = ''Hello World'',
             sentences = [\<lparr>s_text = ''Hello'', s_start = Num 0, s_end = Num (3 / 2)\<rparr>,
                          \<lparr>s_text = ''World'', s_start = Num (3 / 2), s_end = Num 3\<rparr>]\<rparr>
            ''json'' = Inr out \<and>
          json_loads out =
            Some (JObject
              [(''text'', JString ''Hello World''),
               (''sentences'',
                JArray [JObject [(''text'', JString ''Hello''), (''start'', JFloat (Num 0)),
                                 (''end'', JFloat (Num (3 / 2)))],
                        JObject [(''text'', JString ''World''), (''start'', JFloat (Num (3 / 2))),
                                 (''end'', JFloat (Num 3))]])]))"
proof -
  let ?fr = "\<lambda>q :: rat. if q = 0 then ''0.0'' else if q = 3 / 2 then ''1.5'' else ''3.0''"
  let ?r = "\<lparr>full_text = ''Hello World'',
             sentences = [\<lparr>s_text = ''Hello'', s_start = Num 0, s_end = Num (3 / 2)\<rparr>,
                          \<lparr>s_text = ''World'', s_start = Num (3 / 2), s_end = Num 3\<rparr>]\<rparr>"
  have a: "reads_back ?fr (Num 0)" by code_simp
  have b: "reads_back ?fr (Num (3 / 2))" by code_simp
  have c: "reads_back ?fr (Num 3)" by code_simp
  have h: "\<forall>s \<in> set (sentences ?r). reads_back ?fr (s_start s) \<and> reads_back ?fr (s_end s)"
    using a b c by simp
  show ?thesis
    using json_round_trip [OF h] a b c by simp
qed

text \<open>
  C8. For a format outside \<open>txt\<close>, \<open>srt\<close>, \<open>vtt\<close>, \<open>json\<close>: the extension looked up is
  \<open>.txt\<close>, so \<open>get_output_path\<close> returns the path it returns for \<open>txt\<close>, and
  \<open>format_output\<close> returns the full text unchanged, as for \<open>txt\<close>, and never an error.
\<close>

theorem unknown_format_is_txt:
  assumes "fmt \<notin> {''txt'', ''srt'', ''vtt'', ''json''}"
  shows "extension_of fmt = ''.txt'' \<and>
         get_output_path fs input_path output fmt = get_output_path fs input_path output ''txt'' \<and>
         format_output fr result fmt = Inr (full_text result) \<and>
         format_output fr result fmt = format_output fr result ''txt''"
proof -
  have ext: "extension_of fmt = ''.txt''"
    using assms by (simp add: extension_of_def EXTENSION_MAP_def)
  have e_txt: "extension_of ''txt'' = ''.txt''"
    by (simp add: extension_of_def EXTENSION_MAP_def)
  have "get_output_path fs input_path output fmt = get_output_path fs input_path output ''txt''"
    by (simp add: get_output_path_def ext e_txt)
  moreover have "format_output fr result fmt = Inr (full_text result)"
    using assms by (simp add: format_output_def)
  moreover have "format_output fr result ''txt'' = Inr (full_text result)"
    by (simp add: format_output_def)
  ultimately show ?thesis using ext by simp
qed

theorem unknown_format_is_txt_witness:
  "''xml'' \<notin> {''txt'', ''srt'', ''vtt'', ''json''} \<and>
   extension_of ''xml'' = ''.txt'' \<and>
   get_output_path [] (Path ''/'' [''d'', ''a.mp3'']) None ''xml'' = Path ''/'' [''d'', ''a.txt''] \<and>
   format_output (\<lambda>q. []) \<lparr>full_text = ''Hello World'', sentences = []\<rparr> ''xml'' = Inr ''Hello World''"
proof -
  have h: "''xml'' \<notin> {''txt'', ''srt'', ''vtt'', ''json''}" by simp
  have p: "get_output_path [] (Path ''/'' [''d'', ''a.mp3'']) None ''txt'' = Path ''/'' [''d'', ''a.txt'']"
    by code_simp
  show ?thesis
    using unknown_format_is_txt [OF h, of "[]" "Path ''/'' [''d'', ''a.mp3'']" None "\<lambda>q. []"
        "\<lparr>full_text = ''Hello World'', sentences = []\<rparr>"] h p
    by simp
qed

text \<open>
  C9. Only the call of the model is guarded. When the inputs before \<open>p\<close> were processed
  and formatting the transcript of \<open>p\<close> or writing its output file raises, the exception
  leaves \<open>transcribe\<close> and the loop: the run ends with that exception uncaught, the model
  was called for the inputs up to \<open>p\<close> and for none after it, and the file system and the
  standard output are as they were before \<open>p\<close>. A transcription failure, in contrast,
  makes \<open>transcribe\<close> return \<open>False\<close>.
\<close>

theorem format_or_write_error_aborts:
  assumes "passes_validation e w inputs output" and "from_pretrained e = Inr model"
    and "expand_paths e inputs = pre @ p # rest"
    and "process_inputs e model output fmt quiet True (download_notice e w quiet) pre = (Inr s, w1)"
    and "crashes_at e model output fmt (files w1) p err"
  shows "main e w inputs output fmt quiet =
           (Uncaught err,
            w1\<lparr>stderr := stderr w1 @ (if quiet then [] else diagnostics model p),
                transcribed := transcribed w1 @ [str_path p]\<rparr>) \<and>
         transcribed (snd (main e w inputs output fmt quiet)) = transcribed w @ map str_path (pre @ [p]) \<and>
         files (snd (main e w inputs output fmt quiet)) = files w1 \<and>
         stdout (snd (main e w inputs output fmt quiet)) = stdout w1 \<and>
         (\<forall>q out w0. \<not> succeeded model q \<longrightarrow> fst (transcribe e model w0 q out fmt quiet) = Inr False)"
proof -
  let ?w' = "w1\<lparr>stderr := stderr w1 @ (if quiet then [] else diagnostics model p),
                transcribed := transcribed w1 @ [str_path p]\<rparr>"
  have "process_inputs e model output fmt quiet True (download_notice e w quiet) (pre @ p # rest) =
      process_inputs e model output fmt quiet s w1 (p # rest)"
    using assms(4) by (simp add: process_inputs_append)
  also have "\<dots> = (Inl err, ?w')" using assms(5) by (rule crash_step)
  finally have m: "main e w inputs output fmt quiet = (Uncaught err, ?w')"
    using main_validated [OF assms(1,2), of fmt quiet] assms(3) by simp
  have "transcribed w1 = transcribed (download_notice e w quiet) @ map str_path pre"
    using process_inputs_Inr [OF assms(4)] by blast
  then have tr: "transcribed w1 = transcribed w @ map str_path pre"
    by (simp add: download_notice_def)
  have "\<forall>q out w0. \<not> succeeded model q \<longrightarrow> fst (transcribe e model w0 q out fmt quiet) = Inr False"
  proof (intro allI impI)
    fix q out w0
    assume "\<not> succeeded model q"
    then obtain msg where "model (str_path q) = Raised msg"
      by (cases "model (str_path q)") (auto simp: succeeded_def)
    then show "fst (transcribe e model w0 q out fmt quiet) = Inr False"
      by (simp add: transcribe_raised [where model = model])
  qed
  with m tr show ?thesis by simp
qed

theorem format_or_write_error_aborts_witness:
  "passes_validation
     \<lparr>glob = (\<lambda>p. [''c.mp3'', ''a.mp3'', ''b.mp3'']), cwd = Path ''/'' [''d''], model_cached = True,
      from_pretrained = Inr (\<lambda>s. if s = ''/d/b.mp3'' then Raised ''bad audio''
                                   else Returned \<lparr>full_text = ''Hello'', sentences = []\<rparr>),
      float_repr = (\<lambda>q. [])\<rparr>
     \<lparr>files = [(Path ''/'' [''d''], Dir False), (Path ''/'' [''d'', ''a.mp3''], File []),
               (Path ''/'' [''d'', ''b.mp3''], File []), (Path ''/'' [''d'', ''c.mp3''], File [])],
      stdout = [], stderr = [], transcribed = []\<rparr>
     [''*.mp3''] None \<and>
   main
     \<lparr>glob = (\<lambda>p. [''c.mp3'', ''a.mp3'', ''b.mp3'']), cwd = Path ''/'' [''d''], model_cached = True,
      from_pretrained = Inr (\<lambda>s. if s = ''/d/b.mp3'' then Raised ''bad audio''
                                   else Returned \<lparr>full_text = ''Hello'', sentences = []\<rparr>),
      float_repr = (\<lambda>q. [])\<rparr>
     \<lparr>files = [(Path ''/'' [''d''], Dir False), (Path ''/'' [''d'', ''a.mp3''], File []),
               (Path ''/'' [''d'', ''b.mp3''], File []), (Path ''/'' [''d'', ''c.mp3''], File [])],
      stdout = [], stderr = [], transcribed = []\<rparr>
     [''*.mp3''] None ''txt'' True =
   (Uncaught OSError,
    \<lparr>files = [(Path ''/'' [''d''], Dir False), (Path ''/'' [''d'', ''a.mp3''], File []),
              (Path ''/'' [''d'', ''b.mp3''], File []), (Path ''/'' [''d'', ''c.mp3''], File [])],
     stdout = [], stderr = [], transcribed = [''/d/a.mp3'']\<rparr>)"
proof -
  let ?r = "\<lparr>full_text = ''Hello'', sentences = []\<rparr>"
  let ?m = "\<lambda>s. if s = ''/d/b.mp3'' then Raised ''bad audio'' else Returned ?r"
  let ?e = "\<lparr>glob = (\<lambda>p. [''c.mp3'', ''a.mp3'', ''b.mp3'']), cwd = Path ''/'' [''d''], model_cached = True,
      from_pretrained = Inr ?m, float_repr = (\<lambda>q. [])\<rparr>"
  let ?fs = "[(Path ''/'' [''d''], Dir False), (Path ''/'' [''d'', ''a.mp3''], File []),
               (Path ''/'' [''d'', ''b.mp3''], File []), (Path ''/'' [''d'', ''c.mp3''], File [])]"
  let ?w = "\<lparr>files = ?fs, stdout = [], stderr = [], transcribed = []\<rparr>"
  let ?a = "Path ''/'' [''d'', ''a.mp3'']"
  have pv: "passes_validation ?e ?w [''*.mp3''] None" by code_simp
  have fp: "from_pretrained ?e = Inr ?m" by simp
  have ex: "expand_paths ?e [''*.mp3''] = [] @ ?a # [Path ''/'' [''d'', ''b.mp3''], Path ''/'' [''d'', ''c.mp3'']]"
    by code_simp
  have dn: "download_notice ?e ?w True = ?w" by (simp add: download_notice_def)
  have pre: "process_inputs ?e ?m None ''txt'' True True (download_notice ?e ?w True) [] = (Inr True, ?w)"
    by (simp add: dn)
  have sp: "str_path ?a = ''/d/a.mp3''" by code_simp
  have fo: "format_output (float_repr ?e) ?r ''txt'' = Inr ''Hello''" by code_simp
  have wt: "write_text ?fs (get_output_path ?fs ?a None ''txt'') ''Hello'' = Inl OSError" by code_simp
  have cr: "crashes_at ?e ?m None ''txt'' (files ?w) ?a OSError"
    unfolding crashes_at_def using sp fo wt by simp
  show ?thesis
    using format_or_write_error_aborts [OF pv fp ex pre cr] pv sp by simp
qed

text \<open>
  C10. A pattern is a glob exactly when it holds one of the characters \<open>*\<close>, \<open>?\<close>, \<open>[\<close>.
  So a path with a \<open>[\<close> in it is handed to \<open>glob\<close>, and when \<open>glob\<close> matches nothing it
  contributes no entry: its own resolved path is not among the inputs, whether or not
  that file exists, and a run on this one argument ends with status 1 without calling
  the model.
\<close>

theorem bracket_is_glob:
  "(is_glob pat \<longleftrightarrow> CHR ''*'' \<in> set pat \<or> CHR ''?'' \<in> set pat \<or> CHR ''['' \<in> set pat) \<and>
   (CHR ''['' \<in> set pat \<and> glob e pat = [] \<longrightarrow>
      is_glob pat \<and> expand_paths e [pat] = [] \<and>
      resolve (cwd e) (path_of_str pat) \<notin> set (expand_paths e [pat]) \<and>
      fst (main e w [pat] output fmt quiet) = Exit 1 \<and>
      transcribed (snd (main e w [pat] output fmt quiet)) = transcribed w \<and>
      files (snd (main e w [pat] output fmt quiet)) = files w)"
proof -
  have cls: "is_glob pat \<longleftrightarrow> CHR ''*'' \<in> set pat \<or> CHR ''?'' \<in> set pat \<or> CHR ''['' \<in> set pat"
    by (auto simp: is_glob_def)
  have "CHR ''['' \<in> set pat \<and> glob e pat = [] \<longrightarrow>
      is_glob pat \<and> expand_paths e [pat] = [] \<and>
      resolve (cwd e) (path_of_str pat) \<notin> set (expand_paths e [pat]) \<and>
      fst (main e w [pat] output fmt quiet) = Exit 1 \<and>
      transcribed (snd (main e w [pat] output fmt quiet)) = transcribed w \<and>
      files (snd (main e w [pat] output fmt quiet)) = files w"
  proof
    assume h: "CHR ''['' \<in> set pat \<and> glob e pat = []"
    then have g: "is_glob pat" using cls by simp
    with h have none: "expand_paths e [pat] = []" by simp
    then have "main e w [pat] output fmt quiet =
        (Exit 1, if \<not> quiet then w\<lparr>stderr := stderr w @ [''Error: No matching files found'']\<rparr> else w)"
      by (simp add: main_def del: expand_paths.simps)
    then show "is_glob pat \<and> expand_paths e [pat] = [] \<and>
      resolve (cwd e) (path_of_str pat) \<notin> set (expand_paths e [pat]) \<and>
      fst (main e w [pat] output fmt quiet) = Exit 1 \<and>
      transcribed (snd (main e w [pat] output fmt quiet)) = transcribed w \<and>
      files (snd (main e w [pat] output fmt quiet)) = files w"
      using g none by simp
  qed
  with cls show ?thesis by blast
qed

theorem bracket_is_glob_witness:
  "CHR ''['' \<in> set ''a[1].mp3'' \<and>
   path_exists [(Path ''/'' [''d''], Dir True), (Path ''/'' [''d'', ''a[1].mp3''], File [])]
     (resolve (Path ''/'' [''d'']) (path_of_str ''a[1].mp3'')) \<and>
   expand_paths
     \<lparr>glob = (\<lambda>p. []), cwd = Path ''/'' [''d''], model_cached = True,
      from_pretrained = Inr (\<lambda>s. Returned \<lparr>full_text = ''hi'', sentences = []\<rparr>),
      float_repr = (\<lambda>q. [])\<rparr> [''a[1].mp3''] = [] \<and>
   fst (main
     \<lparr>glob = (\<lambda>p. []), cwd = Path ''/'' [''d''], model_cached = True,
      from_pretrained = Inr (\<lambda>s. Returned \<lparr>full_text = ''hi'', sentences = []\<rparr>),
      float_repr = (\<lambda>q. [])\<rparr>
     \<lparr>files = [(Path ''/'' [''d''], Dir True), (Path ''/'' [''d'', ''a[1].mp3''], File [])],
      stdout = [], stderr = [], transcribed = []\<rparr>
     [''a[1].mp3''] None ''txt'' False) = Exit 1"
proof -
  let ?e = "\<lparr>glob = (\<lambda>p. []), cwd = Path ''/'' [''d''], model_cached = True,
      from_pretrained = Inr (\<lambda>s. Returned \<lparr>full_text = ''hi'', sentences = []\<rparr>),
      float_repr = (\<lambda>q. [])\<rparr>"
  let ?w = "\<lparr>files = [(Path ''/'' [''d''], Dir True), (Path ''/'' [''d'', ''a[1].mp3''], File [])],
      stdout = [], stderr = [], transcribed = []\<rparr>"
  have h: "CHR ''['' \<in> set ''a[1].mp3'' \<and> glob ?e ''a[1].mp3'' = []" by simp
  have ex: "path_exists [(Path ''/'' [''d''], Dir True), (Path ''/'' [''d'', ''a[1].mp3''], File [])]
     (resolve (Path ''/'' [''d'']) (path_of_str ''a[1].mp3''))"
    by code_simp
  show ?thesis
    using bracket_is_glob [of "''a[1].mp3''" ?e ?w None "''txt''" False] h ex by blast
qed

end
